theory Spec2Isabelle
  imports Main "HOL-Library.Word"
begin

unbundle bit_operations_syntax

section \<open>The kernel's data\<close>

text \<open>
  A shallow embedding of \<^verbatim>\<open>Kernels/common.c\<close>. The memory-mapped registers are
  volatile: what a read returns is decided by the hardware, so the values that successive
  reads of \<^verbatim>\<open>DLC_Status\<close> and \<^verbatim>\<open>DLC_Receive_FIFO\<close> return are inputs of the model
  (one function from the number of the read to the byte read), and every write to a register
  is appended to a log, in program order.
\<close>

type_synonym byte = "8 word"

text \<open>
  The arguments and locals of type \<^verbatim>\<open>int\<close> are 32 bits wide. Their values are modelled as
  integers; where the code computes \<^verbatim>\<open>length - 1\<close> or \<^verbatim>\<open>index + offset\<close> from an argument,
  the result is reduced to the 32-bit two's complement range, as the machine does it
  (\<^verbatim>\<open>INT_MIN - 1\<close> is \<^verbatim>\<open>INT_MAX\<close>). The counters of the loops stay far inside the range.
\<close>

definition int32 :: "int \<Rightarrow> int" where
  "int32 x = (x + 2147483648) mod 4294967296 - 2147483648"

datatype register = DLC_Transmit_Command | DLC_Transmit_FIFO | Watchdog1 | Watchdog2

definition MessageBufferSize :: int where
  "MessageBufferSize = 1024"

record state =
  MessageBuffer :: "nat \<Rightarrow> byte"
    \<comment> \<open>the array; only indices below \<open>MessageBufferSize\<close> are ever accessed\<close>
  Watchdog2_value :: byte
    \<comment> \<open>what reading \<^verbatim>\<open>*Watchdog2\<close> returns: the value written last\<close>
  written :: "(register \<times> byte) list"
    \<comment> \<open>every register write so far, oldest first\<close>
  DLC_Status :: "nat \<Rightarrow> byte"
    \<comment> \<open>the byte the n-th read of \<^verbatim>\<open>*DLC_Status\<close> returns\<close>
  status_reads :: nat
  DLC_Receive_FIFO :: "nat \<Rightarrow> byte"
    \<comment> \<open>the byte the n-th read of \<^verbatim>\<open>*DLC_Receive_FIFO\<close> returns\<close>
  fifo_reads :: nat

text \<open>
  An access outside the array it indexes is undefined behaviour in C; the model stops there
  with the offending index.
\<close>

datatype fault = OutOfBounds int

text \<open>
  The \<^verbatim>\<open>char* start\<close> arguments. The callers pass either a pointer into
  \<^verbatim>\<open>MessageBuffer\<close> itself (\<open>Staging p\<close> is \<^verbatim>\<open>MessageBuffer + p\<close>), which the
  callee may be writing while it reads, or the first element of an array of their own, which
  the functions here only read.
\<close>

datatype pointer = Staging int | Array "byte list"

fun load :: "state \<Rightarrow> pointer \<Rightarrow> int \<Rightarrow> fault + byte" where
  "load s (Staging p) index =
     (if 0 \<le> p + index \<and> p + index < MessageBufferSize
      then Inr (MessageBuffer s (nat (p + index)))
      else Inl (OutOfBounds (p + index)))"
| "load s (Array xs) index =
     (if 0 \<le> index \<and> index < int (length xs)
      then Inr (xs ! nat index)
      else Inl (OutOfBounds index))"

definition store_MessageBuffer :: "int \<Rightarrow> byte \<Rightarrow> state \<Rightarrow> fault + state" where
  "store_MessageBuffer index v s =
     (if 0 \<le> index \<and> index < MessageBufferSize
      then Inr (s\<lparr>MessageBuffer := (MessageBuffer s)(nat index := v)\<rparr>)
      else Inl (OutOfBounds index))"

definition write_register :: "register \<Rightarrow> byte \<Rightarrow> state \<Rightarrow> state" where
  "write_register r v s = s\<lparr>written := written s @ [(r, v)]\<rparr>"

definition write_Watchdog2 :: "byte \<Rightarrow> state \<Rightarrow> state" where
  "write_Watchdog2 v s = (write_register Watchdog2 v s)\<lparr>Watchdog2_value := v\<rparr>"

definition read_DLC_Status :: "state \<Rightarrow> byte \<times> state" where
  "read_DLC_Status s = (DLC_Status s (status_reads s), s\<lparr>status_reads := status_reads s + 1\<rparr>)"

definition read_DLC_Receive_FIFO :: "state \<Rightarrow> byte \<times> state" where
  "read_DLC_Receive_FIFO s =
     (DLC_Receive_FIFO s (fifo_reads s), s\<lparr>fifo_reads := fifo_reads s + 1\<rparr>)"

section \<open>Watchdog and delays\<close>

definition ScratchWatchdog :: "state \<Rightarrow> state" where
  "ScratchWatchdog s =
     (let s1 = write_register Watchdog1 0x55 s;
          s2 = write_register Watchdog1 0xAA s1;
          s3 = write_Watchdog2 (Watchdog2_value s2 AND 0x7F) s2
      in write_Watchdog2 (Watchdog2_value s3 OR 0x80) s3)"

text \<open>Four \<^verbatim>\<open>nop\<close> instructions: nothing the model can see.\<close>

definition WasteTime :: "state \<Rightarrow> state" where
  "WasteTime s = s"

section \<open>The staging buffer\<close>

function ClearMessageBuffer_loop :: "int \<Rightarrow> state \<Rightarrow> state" where
  "ClearMessageBuffer_loop index s =
     (if index < MessageBufferSize
      then ClearMessageBuffer_loop (index + 1)
             (s\<lparr>MessageBuffer := (MessageBuffer s)(nat index := 0)\<rparr>)
      else s)"
  by pat_completeness auto
termination
  by (relation "measure (\<lambda>(index, s). nat (MessageBufferSize - index))") auto

definition ClearMessageBuffer :: "state \<Rightarrow> state" where
  "ClearMessageBuffer s = ClearMessageBuffer_loop 0 s"

text \<open>
  \<^verbatim>\<open>for (int index = length - 1; index >= 0; index--)\<close>: the copy runs from the last
  byte to the first, and services the watchdog at every index divisible by 100.
\<close>

function CopyToMessageBuffer_loop :: "pointer \<Rightarrow> int \<Rightarrow> int \<Rightarrow> state \<Rightarrow> fault + state" where
  "CopyToMessageBuffer_loop start offset index s =
     (if 0 \<le> index
      then (case load s start index of
              Inl e \<Rightarrow> Inl e
            | Inr v \<Rightarrow>
               (case store_MessageBuffer (int32 (index + offset)) v s of
                  Inl e \<Rightarrow> Inl e
                | Inr s1 \<Rightarrow>
                    CopyToMessageBuffer_loop start offset (index - 1)
                      (if index mod 100 = 0 then ScratchWatchdog s1 else s1)))
      else Inr s)"
  by pat_completeness auto
termination
  by (relation "measure (\<lambda>(start, offset, index, s). nat (index + 1))") auto

definition CopyToMessageBuffer :: "pointer \<Rightarrow> int \<Rightarrow> int \<Rightarrow> state \<Rightarrow> fault + state" where
  "CopyToMessageBuffer start len offset s =
     CopyToMessageBuffer_loop start offset (int32 (len - 1)) s"

section \<open>Transmit\<close>

datatype Segment = Invalid | Start | Middle | End | Complete

fun Segment_value :: "Segment \<Rightarrow> int" where
  "Segment_value Invalid = 0"
| "Segment_value Start = 1"
| "Segment_value Middle = 2"
| "Segment_value End = 4"
| "Segment_value Complete = 1 OR 4"

text \<open>
  \<^verbatim>\<open>for (int iterations = 0; iterations < n; iterations++) { ScratchWatchdog(); WasteTime(); }\<close>,
  which \<^verbatim>\<open>WriteMessage\<close> runs with \<open>n = 50\<close> while it backs off and with \<open>n = 25\<close>
  while it waits for the flush.
\<close>

function pause :: "int \<Rightarrow> int \<Rightarrow> state \<Rightarrow> state" where
  "pause n iterations s =
     (if iterations < n
      then pause n (iterations + 1) (WasteTime (ScratchWatchdog s))
      else s)"
  by pat_completeness auto
termination
  by (relation "measure (\<lambda>(n, iterations, s). nat (n - iterations))") auto

text \<open>
  The back-off after a byte: \<^verbatim>\<open>while ((status == 0x02 || status == 0x03) && loopCount < 250)\<close>.
  The result carries the last values of the locals \<^verbatim>\<open>status\<close> and \<^verbatim>\<open>loopCount\<close>;
  \<^verbatim>\<open>WriteMessage\<close> looks at neither after the loop.
\<close>

function backoff :: "byte \<Rightarrow> int \<Rightarrow> state \<Rightarrow> byte \<times> int \<times> state" where
  "backoff status loopCount s =
     (if (status = 0x02 \<or> status = 0x03) \<and> loopCount < 250
      then backoff
             (fst (read_DLC_Status (ScratchWatchdog (pause 50 0 s))) AND 0x03)
             (loopCount + 1)
             (snd (read_DLC_Status (ScratchWatchdog (pause 50 0 s))))
      else (status, loopCount, s))"
  by pat_completeness auto
termination
  by (relation "measure (\<lambda>(status, loopCount, s). nat (250 - loopCount))") auto

text \<open>The body of \<^verbatim>\<open>for (int index = 0; index < lastIndex; index++)\<close>.\<close>

function send :: "pointer \<Rightarrow> int \<Rightarrow> int \<Rightarrow> state \<Rightarrow> fault + state" where
  "send start lastIndex index s =
     (if index < lastIndex
      then (case load s start index of
              Inl e \<Rightarrow> Inl e
            | Inr v \<Rightarrow>
                (let s1 = ScratchWatchdog (write_register DLC_Transmit_FIFO v s);
                     status = fst (read_DLC_Status s1) AND 0x03;
                     s2 = snd (read_DLC_Status s1)
                 in send start lastIndex (index + 1) (snd (snd (backoff status 0 s2)))))
      else Inr s)"
  by pat_completeness auto
termination
  by (relation "measure (\<lambda>(start, lastIndex, index, s). nat (lastIndex - index))") auto

text \<open>The wait for the flush: \<^verbatim>\<open>while (status != 0 && loopCount < 250)\<close>.\<close>

function flush :: "byte \<Rightarrow> int \<Rightarrow> state \<Rightarrow> byte \<times> int \<times> state" where
  "flush status loopCount s =
     (if status \<noteq> 0 \<and> loopCount < 250
      then flush
             (fst (read_DLC_Status (ScratchWatchdog (pause 25 0 s))) AND 0x03)
             (loopCount + 1)
             (snd (read_DLC_Status (ScratchWatchdog (pause 25 0 s))))
      else (status, loopCount, s))"
  by pat_completeness auto
termination
  by (relation "measure (\<lambda>(status, loopCount, s). nat (250 - loopCount))") auto

definition WriteMessage :: "pointer \<Rightarrow> int \<Rightarrow> Segment \<Rightarrow> state \<Rightarrow> fault + state" where
  "WriteMessage start len segment s =
     (let s1 = ScratchWatchdog s;
          s2 = (if Segment_value segment AND Segment_value Start \<noteq> 0
                then write_register DLC_Transmit_Command 0x14 s1 else s1);
          lastIndex = (if Segment_value segment AND Segment_value End \<noteq> 0
                       then int32 (len - 1) else len)
      in case send start lastIndex 0 s2 of
           Inl e \<Rightarrow> Inl e
         | Inr s3 \<Rightarrow>
             if Segment_value segment AND Segment_value End \<noteq> 0
             then (let s4 = write_register DLC_Transmit_Command 0x0C s3
                   in case load s4 start (int32 (len - 1)) of
                        Inl e \<Rightarrow> Inl e
                      | Inr v \<Rightarrow>
                          (let s5 = WasteTime (write_register DLC_Transmit_FIFO v s4);
                               s6 = write_register DLC_Transmit_Command 0x03 s5;
                               s7 = write_register DLC_Transmit_FIFO 0x00 s6;
                               status = fst (read_DLC_Status s7) AND 0x03;
                               s8 = snd (read_DLC_Status s7)
                           in Inr (ClearMessageBuffer (snd (snd (flush status 0 s8))))))
             else Inr s3)"

text \<open>
  \<^verbatim>\<open>char toolPresent[] = { 0x8C, 0xFE, 0xF0, 0x3F, 0x00, 0x00, 0x00 };\<close> has the seven
  elements of its initialiser. A store to the local array checks the index against it.
\<close>

definition store_local :: "byte list \<Rightarrow> int \<Rightarrow> byte \<Rightarrow> fault + byte list" where
  "store_local xs index v =
     (if 0 \<le> index \<and> index < int (length xs)
      then Inr (xs[nat index := v])
      else Inl (OutOfBounds index))"

definition SendToolPresent :: "byte \<Rightarrow> byte \<Rightarrow> byte \<Rightarrow> byte \<Rightarrow> state \<Rightarrow> fault + state" where
  "SendToolPresent b1 b2 b3 b4 s =
     (case store_local [0x8C, 0xFE, 0xF0, 0x3F, 0x00, 0x00, 0x00] 4 b1 of
        Inl e \<Rightarrow> Inl e
      | Inr t1 \<Rightarrow>
     (case store_local t1 5 b2 of
        Inl e \<Rightarrow> Inl e
      | Inr t2 \<Rightarrow>
     (case store_local t2 6 b3 of
        Inl e \<Rightarrow> Inl e
      | Inr t3 \<Rightarrow>
     (case store_local t3 7 b4 of
        Inl e \<Rightarrow> Inl e
      | Inr toolPresent \<Rightarrow>
     (case WriteMessage (Array toolPresent) 8 Complete s of
        Inl e \<Rightarrow> Inl e
      | Inr s1 \<Rightarrow> Inr (ClearMessageBuffer s1))))))"

section \<open>Receive\<close>

text \<open>
  The overflow case of \<^verbatim>\<open>ReadMessage\<close>:
  \<^verbatim>\<open>while (*DLC_Status & 0xE0 == 0x60) { char unused = *DLC_Receive_FIFO; }\<close>.
  In C \<^verbatim>\<open>==\<close> binds tighter than \<^verbatim>\<open>&\<close>, so the condition is
  \<^verbatim>\<open>*DLC_Status & (0xE0 == 0x60)\<close>: the status byte, promoted to \<^verbatim>\<open>int\<close>, and-ed
  with the value of the comparison.
\<close>

definition overflow_condition :: "byte \<Rightarrow> bool" where
  "overflow_condition v = (sint v AND (if (0xE0::int) = 0x60 then 1 else 0) \<noteq> 0)"

function drain :: "state \<Rightarrow> state" where
  "drain s =
     (if overflow_condition (fst (read_DLC_Status s))
      then drain (snd (read_DLC_Receive_FIFO (snd (read_DLC_Status s))))
      else snd (read_DLC_Status s))"
  by pat_completeness auto
termination
  by (relation "{}") (simp_all add: overflow_condition_def)

text \<open>
  What \<^verbatim>\<open>ReadMessage\<close> hands back: the returned length and the bytes it leaves in
  \<^verbatim>\<open>*completionCode\<close> and \<^verbatim>\<open>*readState\<close>.
\<close>

record result =
  returned :: int
  completionCode :: byte
  readState :: byte
  after :: state

text \<open>
  One pass through the body of the polling loop either returns from \<^verbatim>\<open>ReadMessage\<close> or
  reaches the end of the body with new values of \<^verbatim>\<open>length\<close> and
  \<^verbatim>\<open>*completionCode\<close>.
\<close>

datatype flow = Return result | Continue int byte state

definition ReadMessage_body :: "int \<Rightarrow> byte \<Rightarrow> state \<Rightarrow> flow" where
  "ReadMessage_body len cc s =
     (if len = 25
      then Return \<lparr>returned = len, completionCode = cc, readState = 0xEE, after = s\<rparr>
      else
        (let status = drop_bit 5 (fst (read_DLC_Status s) AND 0xE0);
             s1 = snd (read_DLC_Status s)
         in if status = 0 then Continue len cc (ScratchWatchdog (WasteTime s1))
            else if status = 1 \<or> status = 2 \<or> status = 4
            then (let s2 = snd (read_DLC_Receive_FIFO s1);
                      s3 = s2\<lparr>MessageBuffer :=
                               (MessageBuffer s2)(nat len := fst (read_DLC_Receive_FIFO s1))\<rparr>
                  in Continue (len + 1) cc (ScratchWatchdog s3))
            else if status = 5 \<or> status = 6 \<or> status = 7
            then (let c = fst (read_DLC_Receive_FIFO s1);
                      s2 = write_register DLC_Transmit_Command 0x02
                             (snd (read_DLC_Receive_FIFO s1))
                  in if len = 0 then Continue len c (ScratchWatchdog s2)
                     else if c AND 0x30 = 0x30
                     then Return \<lparr>returned = 0, completionCode = c, readState = 2, after = s2\<rparr>
                     else Return \<lparr>returned = len, completionCode = c, readState = 1,
                                   after = s2\<rparr>)
            else if status = 3
            then Return \<lparr>returned = 0, completionCode = cc, readState = 0x0B,
                          after = drain s1\<rparr>
            else Continue len cc (ScratchWatchdog s1)))"

function ReadMessage_loop :: "int \<Rightarrow> int \<Rightarrow> byte \<Rightarrow> state \<Rightarrow> result" where
  "ReadMessage_loop iterations len cc s =
     (if iterations < 30 * 1000
      then (case ReadMessage_body len cc s of
              Return r \<Rightarrow> r
            | Continue len1 cc1 s1 \<Rightarrow> ReadMessage_loop (iterations + 1) len1 cc1 s1)
      else \<lparr>returned = len, completionCode = cc, readState = 0x0A, after = s\<rparr>)"
  by pat_completeness auto
termination
  by (relation "measure (\<lambda>(iterations, len, cc, s). nat (30 * 1000 - iterations))") auto

text \<open>
  \<open>cc\<close> is what \<^verbatim>\<open>*completionCode\<close> holds when \<^verbatim>\<open>ReadMessage\<close> is called; every
  return writes \<^verbatim>\<open>*readState\<close>, so its old value plays no part.
\<close>

definition ReadMessage :: "byte \<Rightarrow> state \<Rightarrow> result" where
  "ReadMessage cc s = ReadMessage_loop 0 0 cc (ScratchWatchdog s)"

section \<open>Checksums\<close>

function StartChecksum_loop :: "int \<Rightarrow> 16 word \<Rightarrow> state \<Rightarrow> 16 word" where
  "StartChecksum_loop index checksum s =
     (if index < 10
      then StartChecksum_loop (index + 1) (checksum + ucast (MessageBuffer s (nat index))) s
      else checksum)"
  by pat_completeness auto
termination
  by (relation "measure (\<lambda>(index, checksum, s). nat (10 - index))") auto

definition StartChecksum :: "state \<Rightarrow> 16 word" where
  "StartChecksum s = StartChecksum_loop 4 0 s"

function AddReadPayloadChecksum_loop ::
  "pointer \<Rightarrow> int \<Rightarrow> int \<Rightarrow> 16 word \<Rightarrow> state \<Rightarrow> fault + 16 word \<times> state" where
  "AddReadPayloadChecksum_loop start len index checksum s =
     (if index < len
      then (case load s start index of
              Inl e \<Rightarrow> Inl e
            | Inr v \<Rightarrow>
                AddReadPayloadChecksum_loop start len (index + 1) (checksum + ucast v)
                  (if index mod 100 = 0 then ScratchWatchdog s else s))
      else Inr (checksum, s))"
  by pat_completeness auto
termination
  by (relation "measure (\<lambda>(start, len, index, checksum, s). nat (len - index))") auto

definition AddReadPayloadChecksum :: "pointer \<Rightarrow> int \<Rightarrow> state \<Rightarrow> fault + 16 word \<times> state" where
  "AddReadPayloadChecksum start len s =
     (case AddReadPayloadChecksum_loop start len 0 0 (ScratchWatchdog s) of
        Inl e \<Rightarrow> Inl e
      | Inr (checksum, s1) \<Rightarrow> Inr (checksum, ScratchWatchdog s1))"

section \<open>Vocabulary of the properties\<close>

text \<open>The writes to the two transmit registers of the line controller, oldest first.\<close>

definition transmitted :: "state \<Rightarrow> (register \<times> byte) list" where
  "transmitted s =
     filter (\<lambda>w. fst w = DLC_Transmit_Command \<or> fst w = DLC_Transmit_FIFO) (written s)"

text \<open>The bytes among them that went to the transmit data register.\<close>

definition fifo_bytes :: "state \<Rightarrow> byte list" where
  "fifo_bytes s = map snd (filter (\<lambda>w. fst w = DLC_Transmit_FIFO) (transmitted s))"

text \<open>The writes to the two watchdog registers.\<close>

definition watchdog_writes :: "state \<Rightarrow> (register \<times> byte) list" where
  "watchdog_writes s = filter (\<lambda>w. fst w = Watchdog1 \<or> fst w = Watchdog2) (written s)"

text \<open>
  Concrete machines. On \<open>idle_bus\<close> the line controller always reports an empty transmit
  buffer and nothing received, and byte \<open>i\<close> of the buffer holds \<open>i mod 256\<close>. On
  \<open>overflowed\<close> the first two reads of the status register report a receive overflow and
  the later ones report nothing.
\<close>

definition idle_bus :: state where
  "idle_bus = \<lparr>MessageBuffer = (\<lambda>i. word_of_nat i), Watchdog2_value = 0, written = [],
            DLC_Status = (\<lambda>n. 0), status_reads = 0,
            DLC_Receive_FIFO = (\<lambda>n. 0), fifo_reads = 0\<rparr>"

definition overflowed :: state where
  "overflowed = \<lparr>MessageBuffer = (\<lambda>i. 0), Watchdog2_value = 0, written = [],
            DLC_Status = (\<lambda>n. if n < 2 then 0x60 else 0), status_reads = 0,
            DLC_Receive_FIFO = (\<lambda>n. 0x6C), fifo_reads = 0\<rparr>"

text \<open>
  The byte \<^verbatim>\<open>start[index]\<close>, the bytes \<^verbatim>\<open>start[0 .. len - 1]\<close>, and whether that
  range lies inside the array \<open>start\<close> points into.
\<close>

fun element :: "state \<Rightarrow> pointer \<Rightarrow> int \<Rightarrow> byte" where
  "element s (Staging p) index = MessageBuffer s (nat (p + index))"
| "element s (Array xs) index = xs ! nat index"

definition contents :: "state \<Rightarrow> pointer \<Rightarrow> int \<Rightarrow> byte list" where
  "contents s start len = map (\<lambda>i. element s start (int i)) [0..<nat len]"

fun readable :: "pointer \<Rightarrow> int \<Rightarrow> bool" where
  "readable (Staging p) len = (0 \<le> p \<and> p + len \<le> MessageBufferSize)"
| "readable (Array xs) len = (len \<le> int (length xs))"

text \<open>
  A copy of \<open>len\<close> bytes from \<open>start\<close> to \<^verbatim>\<open>MessageBuffer + offset\<close> that runs from the
  last byte to the first writes over source bytes it has not read yet exactly when the source
  begins inside the buffer, after the destination's first byte and before its end.
\<close>

fun overwrites_unread :: "pointer \<Rightarrow> int \<Rightarrow> int \<Rightarrow> bool" where
  "overwrites_unread (Staging p) len offset = (offset < p \<and> p < offset + len)"
| "overwrites_unread (Array xs) len offset = False"

text \<open>
  What a call of \<^verbatim>\<open>WriteMessage\<close> leaves behind. The function returns no value, so its
  caller has the fault or the buffer, and the bus has the bytes and commands written to the
  transmit registers.
\<close>

definition outcome :: "fault + state \<Rightarrow> fault + (nat \<Rightarrow> byte) \<times> (register \<times> byte) list" where
  "outcome r = map_sum id (\<lambda>s. (MessageBuffer s, transmitted s)) r"

text \<open>On \<open>jammed\<close> every read of the status register reports a full transmit buffer.\<close>

definition jammed :: state where
  "jammed = idle_bus\<lparr>DLC_Status := (\<lambda>n. 0x03)\<rparr>"

text \<open>
  The receive-status field that the \<open>k\<close>-th coming read of the status register reports, and
  the values of it that announce a data byte.
\<close>

definition polled :: "state \<Rightarrow> nat \<Rightarrow> byte" where
  "polled s k = drop_bit 5 (DLC_Status s (status_reads s + k) AND 0xE0)"

definition data_status :: "byte \<Rightarrow> bool" where
  "data_status status = (status = 1 \<or> status = 2 \<or> status = 4)"

definition completion_status :: "byte \<Rightarrow> bool" where
  "completion_status status = (status = 5 \<or> status = 6 \<or> status = 7)"

text \<open>
  What holds of a result \<open>r\<close> that the polling loop reaches by running out of iterations,
  \<open>n\<close> polls after it was in state \<open>s\<close> with \<open>len\<close> bytes buffered: the bytes buffered then
  are where they were, and the bytes added since are the last bytes read from the receive
  register, in the order they came.
\<close>

definition timed_out :: "nat \<Rightarrow> int \<Rightarrow> state \<Rightarrow> result \<Rightarrow> bool" where
  "timed_out n len s r =
     (status_reads (after r) = status_reads s + n
      \<and> returned r = len + int (length (filter (\<lambda>k. data_status (polled s k)) [0..<n]))
      \<and> (1 \<le> len \<longrightarrow> fifo_reads (after r) = fifo_reads s + nat (returned r - len))
      \<and> fifo_reads s + nat (returned r - len) \<le> fifo_reads (after r)
      \<and> DLC_Receive_FIFO (after r) = DLC_Receive_FIFO s
      \<and> (\<forall>i. i < nat len \<longrightarrow> MessageBuffer (after r) i = MessageBuffer s i)
      \<and> (\<forall>i. nat len \<le> i \<and> i < nat (returned r) \<longrightarrow>
             MessageBuffer (after r) i =
               DLC_Receive_FIFO s (fifo_reads (after r) + i - nat (returned r))))"

text \<open>
  On \<open>lone_byte\<close> the controller delivers one data byte, 0x6C, and then stays silent. On
  \<open>short_frame c\<close> it delivers the data byte 0x6C and then the completion code \<open>c\<close>. On
  \<open>bare_code\<close> every read of the status register reports a completion code alone, and the
  receive register reads 0x30.
\<close>

definition lone_byte :: state where
  "lone_byte = idle_bus\<lparr>DLC_Status := (\<lambda>n. if n = 0 then 0x20 else 0x00),
                        DLC_Receive_FIFO := (\<lambda>n. 0x6C)\<rparr>"

definition short_frame :: "byte \<Rightarrow> state" where
  "short_frame c = idle_bus\<lparr>DLC_Status := (\<lambda>n. if n = 0 then 0x20 else 0xE0),
                           DLC_Receive_FIFO := (\<lambda>n. if n = 0 then 0x6C else c)\<rparr>"

definition bare_code :: state where
  "bare_code = idle_bus\<lparr>DLC_Status := (\<lambda>n. 0xE0), DLC_Receive_FIFO := (\<lambda>n. 0x30)\<rparr>"

text \<open>The number of the first \<open>n\<close> coming polls that announce a data byte.\<close>

definition data_polls :: "state \<Rightarrow> nat \<Rightarrow> nat" where
  "data_polls s n = length (filter (\<lambda>k. data_status (polled s k)) [0..<n])"

text \<open>
  What holds of a result \<open>r\<close> that the polling loop returns on a completion code, at the
  coming poll number \<open>n\<close> after it was in state \<open>s\<close> with \<open>len\<close> bytes buffered: a byte is
  buffered by then, the completion codes polled earlier came with nothing buffered, the state
  and length returned go by bits 0x30 of the code, and the bytes added since \<open>s\<close> are the
  bytes read from the receive register just before the code, in the order they came.
\<close>

definition completed :: "nat \<Rightarrow> int \<Rightarrow> state \<Rightarrow> result \<Rightarrow> bool" where
  "completed n len s r =
     (status_reads (after r) = status_reads s + n + 1
      \<and> completion_status (polled s n)
      \<and> 1 \<le> len + int (data_polls s n)
      \<and> (\<forall>k. k < n \<and> completion_status (polled s k) \<longrightarrow> len + int (data_polls s k) = 0)
      \<and> completionCode r = DLC_Receive_FIFO s (fifo_reads (after r) - 1)
      \<and> (if completionCode r AND 0x30 = 0x30
          then readState r = 2 \<and> returned r = 0
          else readState r = 1 \<and> returned r = len + int (data_polls s n))
      \<and> (1 \<le> len \<longrightarrow> fifo_reads (after r) = fifo_reads s + data_polls s n + 1)
      \<and> fifo_reads s + data_polls s n + 1 \<le> fifo_reads (after r)
      \<and> DLC_Receive_FIFO (after r) = DLC_Receive_FIFO s
      \<and> (\<forall>i. i < nat len \<longrightarrow> MessageBuffer (after r) i = MessageBuffer s i)
      \<and> (\<forall>i. nat len \<le> i \<and> i < nat len + data_polls s n \<longrightarrow>
             MessageBuffer (after r) i =
               DLC_Receive_FIFO s (fifo_reads (after r) + i - (nat len + data_polls s n + 1))))"

declare ClearMessageBuffer_loop.simps [simp del] CopyToMessageBuffer_loop.simps [simp del]
  pause.simps [simp del] backoff.simps [simp del] send.simps [simp del] flush.simps [simp del]
  drain.simps [simp del] ReadMessage_loop.simps [simp del] StartChecksum_loop.simps [simp del]
  AddReadPayloadChecksum_loop.simps [simp del]

section \<open>Arithmetic inside the 32-bit range\<close>

lemma int32_id [simp]:
  "- 2147483648 \<le> x \<Longrightarrow> x < 2147483648 \<Longrightarrow> int32 x = x"
  by (simp add: int32_def)

section \<open>What the primitives leave alone\<close>

lemma ScratchWatchdog_frame [simp]:
  "MessageBuffer (ScratchWatchdog s) = MessageBuffer s"
  "DLC_Status (ScratchWatchdog s) = DLC_Status s"
  "status_reads (ScratchWatchdog s) = status_reads s"
  "DLC_Receive_FIFO (ScratchWatchdog s) = DLC_Receive_FIFO s"
  "fifo_reads (ScratchWatchdog s) = fifo_reads s"
  by (simp_all add: ScratchWatchdog_def write_Watchdog2_def write_register_def Let_def)

lemma ScratchWatchdog_written:
  "written (ScratchWatchdog s) =
     written s @ [(Watchdog1, 0x55), (Watchdog1, 0xAA), (Watchdog2, Watchdog2_value s AND 0x7F),
                  (Watchdog2, (Watchdog2_value s AND 0x7F) OR 0x80)]"
  by (simp add: ScratchWatchdog_def write_Watchdog2_def write_register_def Let_def)

lemma ScratchWatchdog_transmitted [simp]: "transmitted (ScratchWatchdog s) = transmitted s"
  by (simp add: transmitted_def ScratchWatchdog_written)

lemma write_register_frame [simp]:
  "MessageBuffer (write_register r v s) = MessageBuffer s"
  "DLC_Status (write_register r v s) = DLC_Status s"
  "status_reads (write_register r v s) = status_reads s"
  "DLC_Receive_FIFO (write_register r v s) = DLC_Receive_FIFO s"
  "fifo_reads (write_register r v s) = fifo_reads s"
  "written (write_register r v s) = written s @ [(r, v)]"
  by (simp_all add: write_register_def)

lemma read_DLC_Status_frame [simp]:
  "fst (read_DLC_Status s) = DLC_Status s (status_reads s)"
  "MessageBuffer (snd (read_DLC_Status s)) = MessageBuffer s"
  "DLC_Status (snd (read_DLC_Status s)) = DLC_Status s"
  "status_reads (snd (read_DLC_Status s)) = status_reads s + 1"
  "DLC_Receive_FIFO (snd (read_DLC_Status s)) = DLC_Receive_FIFO s"
  "fifo_reads (snd (read_DLC_Status s)) = fifo_reads s"
  "written (snd (read_DLC_Status s)) = written s"
  by (simp_all add: read_DLC_Status_def)

lemma read_DLC_Receive_FIFO_frame [simp]:
  "fst (read_DLC_Receive_FIFO s) = DLC_Receive_FIFO s (fifo_reads s)"
  "MessageBuffer (snd (read_DLC_Receive_FIFO s)) = MessageBuffer s"
  "DLC_Status (snd (read_DLC_Receive_FIFO s)) = DLC_Status s"
  "status_reads (snd (read_DLC_Receive_FIFO s)) = status_reads s"
  "DLC_Receive_FIFO (snd (read_DLC_Receive_FIFO s)) = DLC_Receive_FIFO s"
  "fifo_reads (snd (read_DLC_Receive_FIFO s)) = fifo_reads s + 1"
  "written (snd (read_DLC_Receive_FIFO s)) = written s"
  by (simp_all add: read_DLC_Receive_FIFO_def)

section \<open>Clearing the buffer\<close>

lemma ClearMessageBuffer_loop_frame:
  "written (ClearMessageBuffer_loop index s) = written s"
  "DLC_Status (ClearMessageBuffer_loop index s) = DLC_Status s"
  "status_reads (ClearMessageBuffer_loop index s) = status_reads s"
  "DLC_Receive_FIFO (ClearMessageBuffer_loop index s) = DLC_Receive_FIFO s"
  "fifo_reads (ClearMessageBuffer_loop index s) = fifo_reads s"
  by (induction index s rule: ClearMessageBuffer_loop.induct;
      subst ClearMessageBuffer_loop.simps; simp)+

lemma ClearMessageBuffer_loop_buffer:
  "0 \<le> index \<Longrightarrow>
   MessageBuffer (ClearMessageBuffer_loop index s) i =
     (if nat index \<le> i \<and> int i < MessageBufferSize then 0 else MessageBuffer s i)"
proof (induction index s rule: ClearMessageBuffer_loop.induct)
  case (1 index s)
  show ?case
  proof (cases "index < MessageBufferSize")
    case True
    with 1 show ?thesis
      by (subst ClearMessageBuffer_loop.simps) (auto simp: nat_add_distrib)
  next
    case False
    then show ?thesis
      by (subst ClearMessageBuffer_loop.simps) auto
  qed
qed

lemma ClearMessageBuffer_buffer:
  "MessageBuffer (ClearMessageBuffer s) i =
     (if int i < MessageBufferSize then 0 else MessageBuffer s i)"
  by (simp add: ClearMessageBuffer_def ClearMessageBuffer_loop_buffer)

text \<open>
  C6, as the code has it: \<^verbatim>\<open>ClearMessageBuffer\<close> sets all 1024 bytes of the buffer to zero
  and writes to no register while it does so; in particular it does not service the watchdog.
\<close>

theorem ClearMessageBuffer_zero_fill_no_watchdog:
  "map (MessageBuffer (ClearMessageBuffer s)) [0..<1024] = replicate 1024 0
   \<and> written (ClearMessageBuffer s) = written s"
proof -
  have "map (MessageBuffer (ClearMessageBuffer s)) [0..<1024] = map (\<lambda>i. 0) [0..<1024]"
    by (rule map_cong) (simp_all add: ClearMessageBuffer_buffer MessageBufferSize_def)
  then show ?thesis
    by (simp add: map_replicate_const ClearMessageBuffer_def ClearMessageBuffer_loop_frame)
qed

text \<open>
  C6 as stated fails: on \<open>idle_bus\<close> the fill of the 1024 bytes passes without one write to
  a watchdog register.
\<close>

theorem ClearMessageBuffer_never_scratches:
  "watchdog_writes (ClearMessageBuffer idle_bus) = []"
  by (simp add: watchdog_writes_def ClearMessageBuffer_def ClearMessageBuffer_loop_frame idle_bus_def)

section \<open>The tool-present message\<close>

text \<open>
  C4: the local array has seven elements, so the store \<^verbatim>\<open>toolPresent[7] = b4\<close> is
  outside it, whatever the four bytes are.
\<close>

theorem SendToolPresent_out_of_bounds:
  "SendToolPresent b1 b2 b3 b4 s = Inl (OutOfBounds 7)"
  by (simp add: SendToolPresent_def store_local_def)

section \<open>Receive overflow\<close>

lemma drain_once: "drain s = snd (read_DLC_Status s)"
  by (subst drain.simps) (simp add: overflow_condition_def)

text \<open>
  C3: on \<open>overflowed\<close> the status still reports the overflow when the drain loop tests it,
  and yet \<^verbatim>\<open>ReadMessage\<close> returns 0 with state 0x0B after two reads of the status
  register and no read of the receive register.
\<close>

theorem ReadMessage_overflow_reads_no_byte:
  "readState (ReadMessage 0 overflowed) = 0x0B \<and> returned (ReadMessage 0 overflowed) = 0
   \<and> status_reads (after (ReadMessage 0 overflowed)) = 2
   \<and> fifo_reads (after (ReadMessage 0 overflowed)) = 0"
  by (simp add: ReadMessage_def ReadMessage_loop.simps ReadMessage_body_def drain_once
      overflowed_def Let_def)

section \<open>Copying into the buffer\<close>

lemma load_readable:
  "readable start len \<Longrightarrow> 0 \<le> index \<Longrightarrow> index < len \<Longrightarrow>
   load s start index = Inr (element s start index)"
  by (cases start) auto

lemma readable_less: "readable start len \<Longrightarrow> n \<le> len \<Longrightarrow> readable start n"
  by (cases start) auto

lemma element_after_store:
  assumes "\<not> overwrites_unread start (index + 1) offset" "0 \<le> i" "i < index" 
    and "readable start (index + 1)" "0 \<le> offset"
    and "MessageBuffer s1 = (MessageBuffer s)(nat (index + offset) := v)"
  shows "element s1 start i = element s start i"
  using assms by (cases start) (auto simp: nat_eq_iff)

lemma CopyToMessageBuffer_loop_result:
  assumes "n = nat (index + 1)" "- 1 \<le> index" "readable start (index + 1)" "0 \<le> offset"
    and "offset + index + 1 \<le> MessageBufferSize"
    and "\<not> overwrites_unread start (index + 1) offset"
  shows "\<exists>s'. CopyToMessageBuffer_loop start offset index s = Inr s' \<and>
           (\<forall>j. MessageBuffer s' j =
              (if offset \<le> int j \<and> int j \<le> offset + index
               then element s start (int j - offset) else MessageBuffer s j))"
  using assms
proof (induction n arbitrary: index s)
  case 0
  then have "index = - 1" by simp
  then show ?case
    by (subst CopyToMessageBuffer_loop.simps) auto
next
  case (Suc n)
  then have pos: "0 \<le> index" by simp
  define v where "v = element s start index"
  define s1 where "s1 = s\<lparr>MessageBuffer := (MessageBuffer s)(nat (index + offset) := v)\<rparr>"
  define s2 where "s2 = (if index mod 100 = 0 then ScratchWatchdog s1 else s1)"
  have ld: "load s start index = Inr v"
    using Suc.prems pos by (simp add: load_readable v_def)
  have st: "store_MessageBuffer (int32 (index + offset)) v s = Inr s1"
    using Suc.prems pos by (simp add: store_MessageBuffer_def s1_def MessageBufferSize_def)
  have unfold: "CopyToMessageBuffer_loop start offset index s =
      CopyToMessageBuffer_loop start offset (index - 1) s2"
    using pos ld st by (subst CopyToMessageBuffer_loop.simps) (simp add: s2_def)
  have mb: "MessageBuffer s2 = (MessageBuffer s)(nat (index + offset) := v)"
    by (simp add: s2_def s1_def)
  have nov: "\<not> overwrites_unread start (index - 1 + 1) offset"
    using Suc.prems(6) by (cases start) auto
  have "\<exists>s'. CopyToMessageBuffer_loop start offset (index - 1) s2 = Inr s' \<and>
           (\<forall>j. MessageBuffer s' j =
              (if offset \<le> int j \<and> int j \<le> offset + (index - 1)
               then element s2 start (int j - offset) else MessageBuffer s2 j))"
    using Suc.prems pos nov
    by (intro Suc.IH) (auto intro: readable_less)
  then obtain s' where run: "CopyToMessageBuffer_loop start offset (index - 1) s2 = Inr s'"
    and buf: "\<And>j. MessageBuffer s' j =
              (if offset \<le> int j \<and> int j \<le> offset + (index - 1)
               then element s2 start (int j - offset) else MessageBuffer s2 j)"
    by blast
  have same: "element s2 start i = element s start i" if "0 \<le> i" "i < index" for i
    using element_after_store [OF Suc.prems(6) that Suc.prems(3,4) mb] .
  have "MessageBuffer s' j =
          (if offset \<le> int j \<and> int j \<le> offset + index
           then element s start (int j - offset) else MessageBuffer s j)" for j
  proof (cases "offset \<le> int j \<and> int j \<le> offset + (index - 1)")
    case True
    then show ?thesis using buf [of j] same [of "int j - offset"] by simp
  next
    case False
    show ?thesis
    proof (cases "int j = offset + index")
      case True
      then have "nat (index + offset) = j" by simp
      with True False pos Suc.prems(4) show ?thesis
        using buf [of j] by (simp add: mb v_def)
    next
      case neq: False
      then have "nat (index + offset) \<noteq> j" using pos Suc.prems(4) by auto
      with neq False show ?thesis using buf [of j] by (auto simp: mb)
    qed
  qed
  with run unfold show ?case by simp
qed

text \<open>
  C1, as the code has it: when the length is not negative, the source range is readable, the
  destination range lies in the buffer and the source does not begin strictly inside the
  destination range after its first byte, \<^verbatim>\<open>CopyToMessageBuffer\<close> leaves the original source bytes at
  \<^verbatim>\<open>MessageBuffer[offset .. offset + len - 1]\<close>. This covers every source outside the
  buffer and every move to a later, overlapping offset inside it.
\<close>

theorem CopyToMessageBuffer_reproduces_source:
  assumes "0 \<le> len" and "readable start len"
    and "0 \<le> offset" and "offset + len \<le> MessageBufferSize"
    and "\<not> overwrites_unread start len offset"
  shows "\<exists>s'. CopyToMessageBuffer start len offset s = Inr s' \<and>
           contents s' (Staging offset) len = contents s start len"
proof -
  have last: "int32 (len - 1) = len - 1"
    using assms(1,3,4) by (simp add: MessageBufferSize_def)
  have "\<exists>s'. CopyToMessageBuffer_loop start offset (len - 1) s = Inr s' \<and>
           (\<forall>j. MessageBuffer s' j =
              (if offset \<le> int j \<and> int j \<le> offset + (len - 1)
               then element s start (int j - offset) else MessageBuffer s j))"
    using assms by (intro CopyToMessageBuffer_loop_result [OF refl]) simp_all
  then obtain s' where run: "CopyToMessageBuffer_loop start offset (len - 1) s = Inr s'"
    and buf: "\<And>j. MessageBuffer s' j =
              (if offset \<le> int j \<and> int j \<le> offset + (len - 1)
               then element s start (int j - offset) else MessageBuffer s j)"
    by blast
  have "contents s' (Staging offset) len = contents s start len"
    unfolding contents_def
  proof (rule map_cong [OF refl])
    fix i assume "i \<in> set [0..<nat len]"
    then have "int i < len" by auto
    then show "element s' (Staging offset) (int i) = element s start (int i)"
      using assms(3) buf [of "nat (offset + int i)"] by simp
  qed
  with run show ?thesis by (simp add: CopyToMessageBuffer_def last)
qed

text \<open>The move of buffer bytes 0..2 to offset 1, which overlaps its source.\<close>

theorem CopyToMessageBuffer_forward_move_witness:
  "\<exists>s'. CopyToMessageBuffer (Staging 0) 3 1 idle_bus = Inr s' \<and>
         contents s' (Staging 1) 3 = [0, 1, 2]"
  using CopyToMessageBuffer_reproduces_source
    [where start = "Staging 0" and len = 3 and offset = 1 and s = idle_bus]
  by (simp add: MessageBufferSize_def contents_def idle_bus_def upt_rec)

text \<open>
  C1 as stated, for every source range and offset, fails: the move of buffer bytes 1..2 to
  offset 0 reads byte 1 after it has overwritten it with byte 2.
\<close>

theorem CopyToMessageBuffer_backward_move_corrupts:
  "\<not> (\<exists>s'. CopyToMessageBuffer (Staging 1) 2 0 idle_bus = Inr s' \<and>
         contents s' (Staging 0) 2 = contents idle_bus (Staging 1) 2)"
  by (simp add: CopyToMessageBuffer_def CopyToMessageBuffer_loop.simps MessageBufferSize_def
      store_MessageBuffer_def contents_def idle_bus_def upt_rec)

section \<open>Checksums\<close>

lemma element_same_buffer:
  "MessageBuffer s1 = MessageBuffer s \<Longrightarrow> element s1 start index = element s start index"
  by (cases start) simp_all

lemma load_same_buffer:
  "MessageBuffer s1 = MessageBuffer s \<Longrightarrow> load s1 start index = load s start index"
  by (cases start) simp_all

lemma sum_list_ucast:
  "sum_list (map ucast (xs :: byte list)) = (word_of_nat (sum_list (map unat xs)) :: 16 word)"
  by (induction xs) simp_all

lemma unat_sum_list_ucast:
  "unat (sum_list (map ucast (xs :: byte list)) :: 16 word) = sum_list (map unat xs) mod 2 ^ 16"
  by (simp add: sum_list_ucast unat_of_nat)

lemma AddReadPayloadChecksum_loop_sum:
  assumes "n = nat (len - index)" "0 \<le> index" "readable start len"
  shows "\<exists>s'. AddReadPayloadChecksum_loop start len index checksum s =
            Inr (checksum +
                 sum_list (map (\<lambda>i. ucast (element s start (int i))) [nat index..<nat len]), s')
           \<and> MessageBuffer s' = MessageBuffer s"
  using assms
proof (induction n arbitrary: index checksum s)
  case 0
  then show ?case
    by (subst AddReadPayloadChecksum_loop.simps) simp
next
  case (Suc n)
  then have lt: "index < len" by simp
  define s1 where "s1 = (if index mod 100 = 0 then ScratchWatchdog s else s)"
  have mb: "MessageBuffer s1 = MessageBuffer s" by (simp add: s1_def)
  have unfold: "AddReadPayloadChecksum_loop start len index checksum s =
      AddReadPayloadChecksum_loop start len (index + 1)
        (checksum + ucast (element s start index)) s1"
    using lt Suc.prems
    by (subst AddReadPayloadChecksum_loop.simps) (simp add: load_readable s1_def)
  have "\<exists>s'. AddReadPayloadChecksum_loop start len (index + 1)
               (checksum + ucast (element s start index)) s1 =
            Inr (checksum + ucast (element s start index) +
                 sum_list (map (\<lambda>i. ucast (element s1 start (int i)))
                   [nat (index + 1)..<nat len]), s')
           \<and> MessageBuffer s' = MessageBuffer s1"
    using Suc.prems by (intro Suc.IH) simp_all
  moreover have "[nat index..<nat len] = nat index # [nat (index + 1)..<nat len]"
    using lt Suc.prems(2) by (simp add: upt_conv_Cons nat_add_distrib)
  ultimately show ?case
    using Suc.prems(2) by (auto simp: unfold mb element_same_buffer [OF mb] add.assoc)
qed

lemma StartChecksum_value:
  "StartChecksum s =
     ucast (MessageBuffer s 4) + ucast (MessageBuffer s 5) + ucast (MessageBuffer s 6)
     + ucast (MessageBuffer s 7) + ucast (MessageBuffer s 8) + ucast (MessageBuffer s 9)"
  by (simp add: StartChecksum_def StartChecksum_loop.simps)

text \<open>
  C9: over a readable range \<^verbatim>\<open>AddReadPayloadChecksum\<close> returns the sum of the bytes modulo
  \<open>2 ^ 16\<close>; over an empty range it returns 0 and over the two bytes 0xFF, 0xFF it returns
  0x01FE; \<^verbatim>\<open>StartChecksum\<close> returns the sum modulo \<open>2 ^ 16\<close> of bytes 4 to 9 of the
  buffer.
\<close>

theorem checksum_is_wrapping_sum:
  "(readable start len \<longrightarrow>
      (\<exists>c s'. AddReadPayloadChecksum start len s = Inr (c, s')
         \<and> unat c = sum_list (map unat (contents s start len)) mod 2 ^ 16))
   \<and> (\<exists>s'. AddReadPayloadChecksum start 0 s = Inr (0, s'))
   \<and> (\<exists>s'. AddReadPayloadChecksum (Array [0xFF, 0xFF]) 2 s = Inr (0x01FE, s'))
   \<and> unat (StartChecksum s) = sum_list (map (\<lambda>i. unat (MessageBuffer s i)) [4..<10]) mod 2 ^ 16"
proof (intro conjI impI)
  assume r: "readable start len"
  obtain s' where run: "AddReadPayloadChecksum_loop start len 0 0 (ScratchWatchdog s) =
      Inr (0 + sum_list (map (\<lambda>i. ucast (element (ScratchWatchdog s) start (int i)))
             [nat 0..<nat len]), s')"
    using AddReadPayloadChecksum_loop_sum [OF refl _ r, of 0 0 "ScratchWatchdog s"] by auto
  have "map (\<lambda>i. ucast (element (ScratchWatchdog s) start (int i)) :: 16 word) [0..<nat len]
      = map ucast (contents s start len)"
    by (simp add: contents_def element_same_buffer [of "ScratchWatchdog s" s] comp_def)
  then show "\<exists>c s'. AddReadPayloadChecksum start len s = Inr (c, s')
         \<and> unat c = sum_list (map unat (contents s start len)) mod 2 ^ 16"
    using run by (simp add: AddReadPayloadChecksum_def unat_sum_list_ucast)
next
  show "\<exists>s'. AddReadPayloadChecksum start 0 s = Inr (0, s')"
    by (simp add: AddReadPayloadChecksum_def AddReadPayloadChecksum_loop.simps)
next
  show "\<exists>s'. AddReadPayloadChecksum (Array [0xFF, 0xFF]) 2 s = Inr (0x01FE, s')"
    by (simp add: AddReadPayloadChecksum_def AddReadPayloadChecksum_loop.simps)
next
  have "[4..<10] = [4, 5, 6, 7, 8, 9::nat]"
    by (simp add: upt_rec)
  then have "StartChecksum s = sum_list (map ucast (map (MessageBuffer s) [4..<10]))"
    by (simp add: StartChecksum_value add.assoc)
  then have "unat (StartChecksum s) =
      sum_list (map unat (map (MessageBuffer s) [4..<10])) mod 2 ^ 16"
    by (simp only: unat_sum_list_ucast)
  then show "unat (StartChecksum s) =
      sum_list (map (\<lambda>i. unat (MessageBuffer s i)) [4..<10]) mod 2 ^ 16"
    by (simp only: map_map comp_def)
qed

text \<open>The three buffer bytes from index 254 on \<open>idle_bus\<close>: 254, 255 and 0.\<close>

theorem checksum_is_wrapping_sum_witness:
  "\<exists>c s'. AddReadPayloadChecksum (Staging 254) 3 idle_bus = Inr (c, s') \<and> unat c = 254 + 255 + 0"
  using checksum_is_wrapping_sum [of "Staging 254" 3 idle_bus]
  by (simp add: MessageBufferSize_def contents_def idle_bus_def upt_rec)

section \<open>Transmitting a message\<close>

lemma write_register_transmitted [simp]:
  "transmitted (write_register r v s) =
     transmitted s @ (if r = DLC_Transmit_Command \<or> r = DLC_Transmit_FIFO then [(r, v)] else [])"
  by (simp add: transmitted_def)

lemma read_DLC_Status_transmitted [simp]:
  "transmitted (snd (read_DLC_Status s)) = transmitted s"
  by (simp add: transmitted_def)

lemma pause_frame [simp]:
  "MessageBuffer (pause n iterations s) = MessageBuffer s"
  "transmitted (pause n iterations s) = transmitted s"
  "DLC_Status (pause n iterations s) = DLC_Status s"
  "status_reads (pause n iterations s) = status_reads s"
  by (induction n iterations s rule: pause.induct; subst pause.simps; simp add: WasteTime_def)+

lemma backoff_frame [simp]:
  "MessageBuffer (snd (snd (backoff status loopCount s))) = MessageBuffer s"
  "transmitted (snd (snd (backoff status loopCount s))) = transmitted s"
  "DLC_Status (snd (snd (backoff status loopCount s))) = DLC_Status s"
  by (induction status loopCount s rule: backoff.induct; subst backoff.simps; simp)+

lemma flush_frame [simp]:
  "MessageBuffer (snd (snd (flush status loopCount s))) = MessageBuffer s"
  "transmitted (snd (snd (flush status loopCount s))) = transmitted s"
  "DLC_Status (snd (snd (flush status loopCount s))) = DLC_Status s"
  by (induction status loopCount s rule: flush.induct; subst flush.simps; simp)+

lemma ClearMessageBuffer_transmitted [simp]:
  "transmitted (ClearMessageBuffer s) = transmitted s"
  by (simp add: transmitted_def ClearMessageBuffer_def ClearMessageBuffer_loop_frame)

lemma send_transmits:
  assumes "n = nat (lastIndex - index)" "0 \<le> index" "readable start lastIndex"
  shows "\<exists>s'. send start lastIndex index s = Inr s'
           \<and> transmitted s' = transmitted s @
               map (\<lambda>i. (DLC_Transmit_FIFO, element s start (int i))) [nat index..<nat lastIndex]
           \<and> MessageBuffer s' = MessageBuffer s"
  using assms
proof (induction n arbitrary: index s)
  case 0
  then show ?case
    by (subst send.simps) simp
next
  case (Suc n)
  then have lt: "index < lastIndex" by simp
  define s1 where "s1 = ScratchWatchdog (write_register DLC_Transmit_FIFO (element s start index) s)"
  define s2 where "s2 = snd (snd (backoff (fst (read_DLC_Status s1) AND 0x03) 0
                                     (snd (read_DLC_Status s1))))"
  have unfold: "send start lastIndex index s = send start lastIndex (index + 1) s2"
    using lt Suc.prems
    by (subst send.simps) (simp add: load_readable s1_def s2_def Let_def)
  have mb: "MessageBuffer s2 = MessageBuffer s"
    by (simp add: s2_def s1_def)
  have tr: "transmitted s2 = transmitted s @ [(DLC_Transmit_FIFO, element s start index)]"
    by (simp add: s2_def s1_def)
  have "\<exists>s'. send start lastIndex (index + 1) s2 = Inr s'
           \<and> transmitted s' = transmitted s2 @
               map (\<lambda>i. (DLC_Transmit_FIFO, element s2 start (int i)))
                 [nat (index + 1)..<nat lastIndex]
           \<and> MessageBuffer s' = MessageBuffer s2"
    using Suc.prems by (intro Suc.IH) simp_all
  moreover have "[nat index..<nat lastIndex] = nat index # [nat (index + 1)..<nat lastIndex]"
    using lt Suc.prems(2) by (simp add: upt_conv_Cons nat_add_distrib)
  ultimately show ?case
    using Suc.prems(2) by (auto simp: unfold mb tr element_same_buffer [OF mb])
qed

text \<open>
  C7: for a readable range of three bytes, \<^verbatim>\<open>WriteMessage(start, 3, Complete)\<close> writes to
  the transmit registers, in this order, the command 0x14 once, the first two bytes, the
  command 0x0C and the third byte, then the command 0x03 and a zero byte, whatever the status
  register reports in between; when it returns, the 1024 bytes of the buffer are zero.
\<close>

theorem WriteMessage_complete_three_bytes:
  assumes "readable start 3" and "contents s start 3 = [b0, b1, b2]"
  shows "\<exists>s'. WriteMessage start 3 Complete s = Inr s'
           \<and> transmitted s' = transmitted s @
               [(DLC_Transmit_Command, 0x14), (DLC_Transmit_FIFO, b0), (DLC_Transmit_FIFO, b1),
                (DLC_Transmit_Command, 0x0C), (DLC_Transmit_FIFO, b2),
                (DLC_Transmit_Command, 0x03), (DLC_Transmit_FIFO, 0x00)]
           \<and> map (MessageBuffer s') [0..<1024] = replicate 1024 0"
proof -
  define s2 where "s2 = write_register DLC_Transmit_Command 0x14 (ScratchWatchdog s)"
  have el: "element s start 0 = b0" "element s start 1 = b1" "element s start 2 = b2"
    using assms(2) by (simp_all add: contents_def upt_rec)
  have mb2: "MessageBuffer s2 = MessageBuffer s" by (simp add: s2_def)
  have r2: "readable start 2" using assms(1) by (rule readable_less) simp
  obtain s3 where run: "send start 2 0 s2 = Inr s3"
    and tr: "transmitted s3 = transmitted s2 @
               map (\<lambda>i. (DLC_Transmit_FIFO, element s2 start (int i))) [nat 0..<nat 2]"
    and mb3: "MessageBuffer s3 = MessageBuffer s2"
    using send_transmits [OF refl _ r2, of 0 s2] by auto
  have tr3: "transmitted s3 = transmitted s @
      [(DLC_Transmit_Command, 0x14), (DLC_Transmit_FIFO, b0), (DLC_Transmit_FIFO, b1)]"
    using tr el by (simp add: element_same_buffer [OF mb2] upt_rec) (simp add: s2_def)
  have ld: "load (write_register DLC_Transmit_Command 0x0C s3) start 2 = Inr b2"
    using load_readable [OF assms(1), of 2 s] el mb3 mb2
    by (simp add: load_same_buffer [of "write_register DLC_Transmit_Command 0x0C s3" s])
  have zero: "map (MessageBuffer (ClearMessageBuffer t)) [0..<1024] = replicate 1024 0" for t
  proof -
    have "map (MessageBuffer (ClearMessageBuffer t)) [0..<1024] = map (\<lambda>i. 0) [0..<1024]"
      by (rule map_cong) (simp_all add: ClearMessageBuffer_buffer MessageBufferSize_def)
    then show ?thesis by (simp add: map_replicate_const)
  qed
  show ?thesis
    unfolding WriteMessage_def
    by (simp add: Let_def run [unfolded s2_def] ld tr3 WasteTime_def zero del: upt_rec_numeral)
qed

text \<open>A three-byte array of the caller's, sent on \<open>idle_bus\<close>.\<close>

theorem WriteMessage_complete_three_bytes_witness:
  "\<exists>s'. WriteMessage (Array [0x6C, 0x10, 0xF0]) 3 Complete idle_bus = Inr s'
         \<and> transmitted s' =
               [(DLC_Transmit_Command, 0x14), (DLC_Transmit_FIFO, 0x6C), (DLC_Transmit_FIFO, 0x10),
                (DLC_Transmit_Command, 0x0C), (DLC_Transmit_FIFO, 0xF0),
                (DLC_Transmit_Command, 0x03), (DLC_Transmit_FIFO, 0x00)]
         \<and> map (MessageBuffer s') [0..<1024] = replicate 1024 0"
proof -
  have r: "readable (Array [0x6C, 0x10, 0xF0]) 3"
    by simp
  have c: "contents idle_bus (Array [0x6C, 0x10, 0xF0]) 3 = [0x6C, 0x10, 0xF0]"
    by (simp add: contents_def upt_rec)
  have t: "transmitted idle_bus = []"
    by (simp add: transmitted_def idle_bus_def)
  show ?thesis
    using WriteMessage_complete_three_bytes [OF r c] by (simp only: t append_Nil)
qed

lemma fifo_bytes_append:
  "transmitted s' = transmitted s @ ws \<Longrightarrow>
   fifo_bytes s' = fifo_bytes s @ map snd (filter (\<lambda>w. fst w = DLC_Transmit_FIFO) ws)"
  by (simp add: fifo_bytes_def)

lemma fifo_bytes_of_data:
  "map snd (filter (\<lambda>w. fst w = DLC_Transmit_FIFO) (map (\<lambda>i. (DLC_Transmit_FIFO, f i)) ks)) =
     map f ks"
  by (induction ks) simp_all

lemma WriteMessage_end_transmits:
  assumes "Segment_value segment AND Segment_value End \<noteq> 0"
    and "1 \<le> len" and "len \<le> 2147483647" and "readable start len"
  shows "\<exists>s'. WriteMessage start len segment s = Inr s'
           \<and> fifo_bytes s' = fifo_bytes s @ contents s start len @ [0x00]"
proof -
  define s2 where "s2 = (if Segment_value segment AND Segment_value Start \<noteq> 0
                then write_register DLC_Transmit_Command 0x14 (ScratchWatchdog s)
                else ScratchWatchdog s)"
  have last: "int32 (len - 1) = len - 1"
    using assms(2,3) by simp
  have mb2: "MessageBuffer s2 = MessageBuffer s"
    by (simp add: s2_def)
  have f2: "fifo_bytes s2 = fifo_bytes s"
    by (simp add: s2_def fifo_bytes_def)
  have r: "readable start (len - 1)"
    using assms(4) by (rule readable_less) simp
  obtain s3 where run: "send start (len - 1) 0 s2 = Inr s3"
    and tr: "transmitted s3 = transmitted s2 @
               map (\<lambda>i. (DLC_Transmit_FIFO, element s2 start (int i))) [nat 0..<nat (len - 1)]"
    and mb3: "MessageBuffer s3 = MessageBuffer s2"
    using send_transmits [OF refl _ r, of 0 s2] by auto
  have f3: "fifo_bytes s3 =
      fifo_bytes s @ map (\<lambda>i. element s start (int i)) [0..<nat (len - 1)]"
    using fifo_bytes_append [OF tr]
    by (simp only: fifo_bytes_of_data f2 element_same_buffer [OF mb2]) simp
  define s4 where "s4 = write_register DLC_Transmit_Command 0x0C s3"
  have mb4: "MessageBuffer s4 = MessageBuffer s"
    by (simp add: s4_def mb3 mb2)
  have ld: "load s4 start (len - 1) = Inr (element s start (len - 1))"
    using load_readable [OF assms(4), of "len - 1" s4] assms(2)
    by (simp add: element_same_buffer [OF mb4])
  define s8 where "s8 = snd (snd (flush
      (fst (read_DLC_Status (write_register DLC_Transmit_FIFO 0x00
         (write_register DLC_Transmit_Command 0x03 (WasteTime
            (write_register DLC_Transmit_FIFO (element s start (len - 1)) s4))))) AND 0x03) 0
      (snd (read_DLC_Status (write_register DLC_Transmit_FIFO 0x00
         (write_register DLC_Transmit_Command 0x03 (WasteTime
            (write_register DLC_Transmit_FIFO (element s start (len - 1)) s4))))))))"
  have tr8: "transmitted (ClearMessageBuffer s8) = transmitted s3 @
      [(DLC_Transmit_Command, 0x0C), (DLC_Transmit_FIFO, element s start (len - 1)),
       (DLC_Transmit_Command, 0x03), (DLC_Transmit_FIFO, 0x00)]"
    by (simp add: s8_def s4_def WasteTime_def)
  have whole: "WriteMessage start len segment s = Inr (ClearMessageBuffer s8)"
    using assms(1) run ld
    unfolding WriteMessage_def s2_def s4_def s8_def last by (simp add: Let_def)
  have "[0..<nat len] = [0..<nat (len - 1)] @ [nat (len - 1)]"
    using assms(2) by (metis Suc_nat_eq_nat_zadd1 add.commute diff_add_cancel diff_ge_0_iff_ge upt_Suc_append zero_le)
  then have c: "contents s start len =
      map (\<lambda>i. element s start (int i)) [0..<nat (len - 1)] @ [element s start (len - 1)]"
    using assms(2) by (simp add: contents_def)
  have "fifo_bytes (ClearMessageBuffer s8) = fifo_bytes s @ contents s start len @ [0x00]"
    using fifo_bytes_append [OF tr8] by (simp add: f3 c)
  with whole show ?thesis by simp
qed

text \<open>
  C10: for a segment that includes \<^verbatim>\<open>End\<close>, \<^verbatim>\<open>WriteMessage\<close> on a readable range of at
  least one byte returns without a fault, and the bytes it has written to the transmit data
  register are the bytes of the range, each once and in order, and the zero byte: for an array
  of exactly \<open>len\<close> bytes no index outside 0 to \<open>len - 1\<close> is read. With length 0 it reads
  \<^verbatim>\<open>start[-1]\<close>. That is before the first element of an array of the caller's, and before
  the buffer for a pointer to its first byte; for a pointer \<open>p\<close> bytes into the buffer it is
  the buffer byte \<open>p - 1\<close>, in front of the range, and this byte is what is sent.
\<close>

theorem WriteMessage_end_needs_a_byte:
  assumes "Segment_value segment AND Segment_value End \<noteq> 0"
  shows "(1 \<le> len \<and> len \<le> 2147483647 \<and> readable start len \<longrightarrow>
            (\<exists>s'. WriteMessage start len segment s = Inr s'
               \<and> fifo_bytes s' = fifo_bytes s @ contents s start len @ [0x00]))
       \<and> WriteMessage (Array xs) 0 segment s = Inl (OutOfBounds (- 1))
       \<and> (p < 1 \<or> MessageBufferSize < p \<longrightarrow>
            WriteMessage (Staging p) 0 segment s = Inl (OutOfBounds (p - 1)))
       \<and> (1 \<le> p \<and> p \<le> MessageBufferSize \<longrightarrow>
            (\<exists>s'. WriteMessage (Staging p) 0 segment s = Inr s'
               \<and> fifo_bytes s' = fifo_bytes s @ [MessageBuffer s (nat (p - 1)), 0x00]))"
proof (intro conjI impI)
  assume "1 \<le> len \<and> len \<le> 2147483647 \<and> readable start len"
  then show "\<exists>s'. WriteMessage start len segment s = Inr s'
               \<and> fifo_bytes s' = fifo_bytes s @ contents s start len @ [0x00]"
    using WriteMessage_end_transmits [OF assms] by blast
next
  show "WriteMessage (Array xs) 0 segment s = Inl (OutOfBounds (- 1))"
    using assms by (simp add: WriteMessage_def Let_def send.simps)
next
  assume "p < 1 \<or> MessageBufferSize < p"
  then show "WriteMessage (Staging p) 0 segment s = Inl (OutOfBounds (p - 1))"
    using assms by (auto simp: WriteMessage_def Let_def send.simps)
next
  assume p: "1 \<le> p \<and> p \<le> MessageBufferSize"
  define s2 where "s2 = (if Segment_value segment AND Segment_value Start \<noteq> 0
                then write_register DLC_Transmit_Command 0x14 (ScratchWatchdog s)
                else ScratchWatchdog s)"
  define v where "v = MessageBuffer s (nat (p - 1))"
  define s4 where "s4 = write_register DLC_Transmit_Command 0x0C s2"
  have f2: "fifo_bytes s2 = fifo_bytes s"
    by (simp add: s2_def fifo_bytes_def)
  have ld: "load s4 (Staging p) (- 1) = Inr v"
    using p by (simp add: s4_def s2_def v_def)
  define s8 where "s8 = snd (snd (flush
      (fst (read_DLC_Status (write_register DLC_Transmit_FIFO 0x00
         (write_register DLC_Transmit_Command 0x03 (WasteTime
            (write_register DLC_Transmit_FIFO v s4))))) AND 0x03) 0
      (snd (read_DLC_Status (write_register DLC_Transmit_FIFO 0x00
         (write_register DLC_Transmit_Command 0x03 (WasteTime
            (write_register DLC_Transmit_FIFO v s4))))))))"
  have tr8: "transmitted (ClearMessageBuffer s8) = transmitted s2 @
      [(DLC_Transmit_Command, 0x0C), (DLC_Transmit_FIFO, v),
       (DLC_Transmit_Command, 0x03), (DLC_Transmit_FIFO, 0x00)]"
    by (simp add: s8_def s4_def WasteTime_def)
  have whole: "WriteMessage (Staging p) 0 segment s = Inr (ClearMessageBuffer s8)"
    using assms ld
    unfolding WriteMessage_def s2_def s4_def s8_def by (simp add: Let_def send.simps)
  have "fifo_bytes (ClearMessageBuffer s8) = fifo_bytes s @ [v, 0x00]"
    using fifo_bytes_append [OF tr8] by (simp add: f2)
  with whole show "\<exists>s'. WriteMessage (Staging p) 0 segment s = Inr s'
               \<and> fifo_bytes s' = fifo_bytes s @ [MessageBuffer s (nat (p - 1)), 0x00]"
    by (simp add: v_def)
qed

text \<open>
  An \<^verbatim>\<open>End\<close> segment of one byte; one of no byte in an array, at the first byte of the
  buffer, and at its fifth byte, where the fourth is sent.
\<close>

theorem WriteMessage_end_needs_a_byte_witness:
  "(\<exists>s'. WriteMessage (Array [0x3F]) 1 End idle_bus = Inr s' \<and> fifo_bytes s' = [0x3F, 0x00])
   \<and> WriteMessage (Array []) 0 End idle_bus = Inl (OutOfBounds (- 1))
   \<and> WriteMessage (Staging 0) 0 End idle_bus = Inl (OutOfBounds (- 1))
   \<and> (\<exists>s'. WriteMessage (Staging 4) 0 End idle_bus = Inr s' \<and> fifo_bytes s' = [0x03, 0x00])"
proof -
  have e: "Segment_value End AND Segment_value End \<noteq> 0" by simp
  have r: "1 \<le> (1::int) \<and> (1::int) \<le> 2147483647 \<and> readable (Array [0x3F]) 1" by simp
  have f: "fifo_bytes idle_bus = []"
    by (simp add: fifo_bytes_def transmitted_def idle_bus_def)
  have c: "contents idle_bus (Array [0x3F]) 1 = [0x3F]"
    by (simp add: contents_def)
  have m: "MessageBuffer idle_bus 3 = 0x03"
    by (simp add: idle_bus_def)
  have a: "\<exists>s'. WriteMessage (Array [0x3F]) 1 End idle_bus = Inr s' \<and> fifo_bytes s' = [0x3F, 0x00]"
    using WriteMessage_end_needs_a_byte
      [OF e, where len = 1 and start = "Array [0x3F]" and s = idle_bus] r
    by (simp add: f c)
  have b: "WriteMessage (Array []) 0 End idle_bus = Inl (OutOfBounds (- 1))"
    using WriteMessage_end_needs_a_byte [OF e, where xs = "[]" and s = idle_bus] by simp
  have c0: "WriteMessage (Staging 0) 0 End idle_bus = Inl (OutOfBounds (- 1))"
    using WriteMessage_end_needs_a_byte [OF e, where p = 0 and s = idle_bus] by simp
  have d: "\<exists>s'. WriteMessage (Staging 4) 0 End idle_bus = Inr s' \<and> fifo_bytes s' = [0x03, 0x00]"
    using WriteMessage_end_needs_a_byte [OF e, where p = 4 and s = idle_bus]
    by (simp add: f m MessageBufferSize_def)
  from a b c0 d show ?thesis by blast
qed

section \<open>A transmit buffer that stays full\<close>

lemma backoff_exhausted:
  assumes "n = nat (250 - loopCount)" "loopCount \<le> 250" "\<And>k. DLC_Status s k AND 0x03 = 0x03"
  shows "fst (backoff 0x03 loopCount s) = 0x03 \<and> fst (snd (backoff 0x03 loopCount s)) = 250
         \<and> status_reads (snd (snd (backoff 0x03 loopCount s))) = status_reads s + n"
  using assms
proof (induction n arbitrary: loopCount s)
  case 0
  then show ?case by (subst (1 2 3) backoff.simps) simp
next
  case (Suc n)
  then have lt: "loopCount < 250" by simp
  define s1 where "s1 = snd (read_DLC_Status (ScratchWatchdog (pause 50 0 s)))"
  have unfold: "backoff 0x03 loopCount s = backoff 0x03 (loopCount + 1) s1"
    using lt Suc.prems(3) by (subst backoff.simps) (simp add: s1_def)
  have "fst (backoff 0x03 (loopCount + 1) s1) = 0x03
         \<and> fst (snd (backoff 0x03 (loopCount + 1) s1)) = 250
         \<and> status_reads (snd (snd (backoff 0x03 (loopCount + 1) s1))) = status_reads s1 + n"
    using Suc.prems by (intro Suc.IH) (simp_all add: s1_def)
  then show ?case by (simp add: unfold) (simp add: s1_def)
qed

lemma send_ignores_status:
  assumes "n = nat (lastIndex - index)"
    and "MessageBuffer s2 = MessageBuffer s1" and "transmitted s2 = transmitted s1"
  shows "outcome (send start lastIndex index s2) = outcome (send start lastIndex index s1)"
  using assms
proof (induction n arbitrary: index s1 s2)
  case 0
  then show ?case
    by (subst (1 2) send.simps) (simp add: outcome_def)
next
  case (Suc n)
  then have lt: "index < lastIndex" by simp
  have ld: "load s2 start index = load s1 start index"
    using Suc.prems(2) by (rule load_same_buffer)
  show ?case
  proof (cases "load s1 start index")
    case (Inl e)
    then show ?thesis
      using lt ld by (subst (1 2) send.simps) (simp add: outcome_def)
  next
    case (Inr v)
    define next_state where "next_state = (\<lambda>s.
      snd (snd (backoff
        (fst (read_DLC_Status (ScratchWatchdog (write_register DLC_Transmit_FIFO v s))) AND 0x03) 0
        (snd (read_DLC_Status (ScratchWatchdog (write_register DLC_Transmit_FIFO v s)))))))"
    have step: "send start lastIndex index s = send start lastIndex (index + 1) (next_state s)"
      if "load s start index = Inr v" for s
      using lt that by (subst send.simps) (simp add: Let_def next_state_def)
    have "outcome (send start lastIndex (index + 1) (next_state s2)) =
          outcome (send start lastIndex (index + 1) (next_state s1))"
      using Suc.prems by (intro Suc.IH) (simp_all add: next_state_def)
    then show ?thesis
      using Inr ld by (simp add: step)
  qed
qed

lemma WriteMessage_outcome:
  assumes "MessageBuffer s2 = MessageBuffer s1" and "transmitted s2 = transmitted s1"
  shows "outcome (WriteMessage start len segment s2) = outcome (WriteMessage start len segment s1)"
proof -
  define before where "before = (\<lambda>s.
     if Segment_value segment AND Segment_value Start \<noteq> 0
     then write_register DLC_Transmit_Command 0x14 (ScratchWatchdog s) else ScratchWatchdog s)"
  define lastIndex where "lastIndex =
     (if Segment_value segment AND Segment_value End \<noteq> 0 then int32 (len - 1) else len)"
  define finish where "finish = (\<lambda>s3.
     if Segment_value segment AND Segment_value End \<noteq> 0
     then (let s4 = write_register DLC_Transmit_Command 0x0C s3
           in case load s4 start (int32 (len - 1)) of
                Inl e \<Rightarrow> Inl e
              | Inr v \<Rightarrow>
                  (let s5 = WasteTime (write_register DLC_Transmit_FIFO v s4);
                       s6 = write_register DLC_Transmit_Command 0x03 s5;
                       s7 = write_register DLC_Transmit_FIFO 0x00 s6;
                       status = fst (read_DLC_Status s7) AND 0x03;
                       s8 = snd (read_DLC_Status s7)
                   in Inr (ClearMessageBuffer (snd (snd (flush status 0 s8))))))
     else Inr s3)"
  have shape: "WriteMessage start len segment s =
      (case send start lastIndex 0 (before s) of Inl e \<Rightarrow> Inl e | Inr s3 \<Rightarrow> finish s3)" for s
    by (simp only: WriteMessage_def Let_def before_def lastIndex_def finish_def)
  have fin: "outcome (finish t2) = outcome (finish t1)"
    if same: "MessageBuffer t2 = MessageBuffer t1" "transmitted t2 = transmitted t1" for t1 t2
  proof (cases "Segment_value segment AND Segment_value End \<noteq> 0")
    case False
    with same show ?thesis by (simp add: finish_def outcome_def)
  next
    case True
    define flushed where "flushed = (\<lambda>v t.
       snd (snd (flush
         (fst (read_DLC_Status (write_register DLC_Transmit_FIFO 0x00
            (write_register DLC_Transmit_Command 0x03 (WasteTime (write_register DLC_Transmit_FIFO v
               (write_register DLC_Transmit_Command 0x0C t)))))) AND 0x03) 0
         (snd (read_DLC_Status (write_register DLC_Transmit_FIFO 0x00
            (write_register DLC_Transmit_Command 0x03 (WasteTime (write_register DLC_Transmit_FIFO v
               (write_register DLC_Transmit_Command 0x0C t))))))))))"
    have fshape: "finish t =
        (case load (write_register DLC_Transmit_Command 0x0C t) start (int32 (len - 1)) of
           Inl e \<Rightarrow> Inl e | Inr v \<Rightarrow> Inr (ClearMessageBuffer (flushed v t)))" for t
      using True by (simp only: finish_def flushed_def Let_def if_True not_False_eq_True)
    have ld: "load (write_register DLC_Transmit_Command 0x0C t2) start (int32 (len - 1)) =
          load (write_register DLC_Transmit_Command 0x0C t1) start (int32 (len - 1))"
      by (rule load_same_buffer) (simp add: same)
    have fl: "MessageBuffer (flushed v t) = MessageBuffer t"
         "transmitted (flushed v t) = transmitted t @
            [(DLC_Transmit_Command, 0x0C), (DLC_Transmit_FIFO, v),
             (DLC_Transmit_Command, 0x03), (DLC_Transmit_FIFO, 0x00)]" for v t
      by (simp_all add: flushed_def WasteTime_def)
    have cl: "MessageBuffer (ClearMessageBuffer (flushed v t2)) =
              MessageBuffer (ClearMessageBuffer (flushed v t1))" for v
      by (rule ext) (simp add: ClearMessageBuffer_buffer fl same)
    show ?thesis
    proof (cases "load (write_register DLC_Transmit_Command 0x0C t1) start (int32 (len - 1))")
      case (Inl e)
      with ld show ?thesis by (simp add: fshape outcome_def)
    next
      case (Inr v)
      with ld show ?thesis by (simp add: fshape outcome_def cl fl same)
    qed
  qed
  have snd: "outcome (send start lastIndex 0 (before s2)) =
             outcome (send start lastIndex 0 (before s1))"
    using assms by (intro send_ignores_status [OF refl]) (simp_all add: before_def)
  show ?thesis
  proof (cases "send start lastIndex 0 (before s1)")
    case (Inl e)
    with snd show ?thesis
      by (cases "send start lastIndex 0 (before s2)") (simp_all add: shape outcome_def)
  next
    case (Inr t1)
    with snd obtain t2 where t2: "send start lastIndex 0 (before s2) = Inr t2"
      and eq: "MessageBuffer t2 = MessageBuffer t1" "transmitted t2 = transmitted t1"
      by (cases "send start lastIndex 0 (before s2)") (simp_all add: outcome_def)
    show ?thesis
      using fin [OF eq] by (simp add: shape Inr t2)
  qed
qed

text \<open>
  C5, as the code has it: \<^verbatim>\<open>WriteMessage\<close> returns no value, and the buffer it leaves and
  the bytes and commands it writes to the transmit registers do not depend on what the status
  register reads. After a back-off that used its 250 iterations the next byte is written as
  after one that ended at once.
\<close>

theorem WriteMessage_stall_not_reported:
  assumes "MessageBuffer s2 = MessageBuffer s1" and "transmitted s2 = transmitted s1"
  shows "outcome (WriteMessage start len segment s2) = outcome (WriteMessage start len segment s1)"
  using assms by (rule WriteMessage_outcome)

text \<open>Buffer bytes 4 and 5 sent as a complete message, with and without the stall.\<close>

theorem WriteMessage_stall_not_reported_witness:
  "outcome (WriteMessage (Staging 4) 2 Complete jammed) =
   outcome (WriteMessage (Staging 4) 2 Complete idle_bus)"
proof -
  have "MessageBuffer jammed = MessageBuffer idle_bus" "transmitted jammed = transmitted idle_bus"
    by (simp_all add: jammed_def transmitted_def)
  then show ?thesis by (rule WriteMessage_stall_not_reported)
qed

text \<open>
  C5 as stated fails. On \<open>jammed\<close> the back-off ends with \<^verbatim>\<open>loopCount\<close> at 250 and the
  status still 3: sending one byte reads the status 251 times, against once on \<open>idle_bus\<close>.
  The two calls leave the same buffer and the same transmit writes, and return nothing.
\<close>

theorem WriteMessage_stall_is_silent:
  "fst (backoff 0x03 0 jammed) = 0x03 \<and> fst (snd (backoff 0x03 0 jammed)) = 250
   \<and> status_reads (projr (WriteMessage (Array [0x6C]) 1 Start jammed)) = 251
   \<and> status_reads (projr (WriteMessage (Array [0x6C]) 1 Start idle_bus)) = 1
   \<and> outcome (WriteMessage (Array [0x6C]) 1 Start jammed) =
       outcome (WriteMessage (Array [0x6C]) 1 Start idle_bus)"
proof -
  have full: "DLC_Status jammed k AND 0x03 = 0x03" for k
    by (simp add: jammed_def)
  have a: "fst (backoff 0x03 0 jammed) = 0x03 \<and> fst (snd (backoff 0x03 0 jammed)) = 250"
    using backoff_exhausted [OF refl _ full, of 0] by simp
  define s1 where "s1 = snd (read_DLC_Status (ScratchWatchdog (write_register DLC_Transmit_FIFO 0x6C
       (write_register DLC_Transmit_Command 0x14 (ScratchWatchdog jammed)))))"
  have full1: "DLC_Status s1 k AND 0x03 = 0x03" for k
    by (simp add: s1_def full)
  have "status_reads (snd (snd (backoff 0x03 0 s1))) = status_reads s1 + nat (250 - 0)"
    using backoff_exhausted [OF refl _ full1, of 0] by simp
  then have b: "status_reads (projr (WriteMessage (Array [0x6C]) 1 Start jammed)) = 251"
    by (simp add: WriteMessage_def Let_def send.simps [of _ 1] full s1_def)
       (simp add: jammed_def idle_bus_def)
  have c: "status_reads (projr (WriteMessage (Array [0x6C]) 1 Start idle_bus)) = 1"
    by (simp add: WriteMessage_def Let_def send.simps [of _ 1] backoff.simps [of 0] idle_bus_def)
  have "MessageBuffer jammed = MessageBuffer idle_bus" "transmitted jammed = transmitted idle_bus"
    by (simp_all add: jammed_def transmitted_def)
  then have d: "outcome (WriteMessage (Array [0x6C]) 1 Start jammed) =
       outcome (WriteMessage (Array [0x6C]) 1 Start idle_bus)"
    by (rule WriteMessage_outcome)
  from a b c d show ?thesis by blast
qed

section \<open>Receiving a message\<close>

lemma ReadMessage_loop_step:
  "iterations < 30 * 1000 \<Longrightarrow> ReadMessage_body len cc s = Continue len1 cc1 s1 \<Longrightarrow>
   ReadMessage_loop iterations len cc s = ReadMessage_loop (iterations + 1) len1 cc1 s1"
  "iterations < 30 * 1000 \<Longrightarrow> ReadMessage_body len cc s = Return r \<Longrightarrow>
   ReadMessage_loop iterations len cc s = r"
  "\<not> iterations < 30 * 1000 \<Longrightarrow>
   ReadMessage_loop iterations len cc s =
     \<lparr>returned = len, completionCode = cc, readState = 0x0A, after = s\<rparr>"
  by (subst ReadMessage_loop.simps; simp)+

lemma ReadMessage_body_cases:
  "len = 25 \<Longrightarrow> ReadMessage_body len cc s =
     Return \<lparr>returned = len, completionCode = cc, readState = 0xEE, after = s\<rparr>"
  "len \<noteq> 25 \<Longrightarrow> polled s 0 = 0 \<Longrightarrow> ReadMessage_body len cc s =
     Continue len cc (ScratchWatchdog (WasteTime (snd (read_DLC_Status s))))"
  "len \<noteq> 25 \<Longrightarrow> data_status (polled s 0) \<Longrightarrow> ReadMessage_body len cc s =
     Continue (len + 1) cc (ScratchWatchdog
       ((snd (read_DLC_Receive_FIFO (snd (read_DLC_Status s))))
          \<lparr>MessageBuffer := (MessageBuffer s)(nat len := DLC_Receive_FIFO s (fifo_reads s))\<rparr>))"
  "len \<noteq> 25 \<Longrightarrow> completion_status (polled s 0) \<Longrightarrow> ReadMessage_body len cc s =
     (let c = DLC_Receive_FIFO s (fifo_reads s);
          s2 = write_register DLC_Transmit_Command 0x02
                 (snd (read_DLC_Receive_FIFO (snd (read_DLC_Status s))))
      in if len = 0 then Continue len c (ScratchWatchdog s2)
         else if c AND 0x30 = 0x30
         then Return \<lparr>returned = 0, completionCode = c, readState = 2, after = s2\<rparr>
         else Return \<lparr>returned = len, completionCode = c, readState = 1, after = s2\<rparr>)"
  "len \<noteq> 25 \<Longrightarrow> polled s 0 = 3 \<Longrightarrow> ReadMessage_body len cc s =
     Return \<lparr>returned = 0, completionCode = cc, readState = 0x0B,
             after = drain (snd (read_DLC_Status s))\<rparr>"
  "len \<noteq> 25 \<Longrightarrow> polled s 0 \<noteq> 0 \<Longrightarrow> \<not> data_status (polled s 0) \<Longrightarrow>
   \<not> completion_status (polled s 0) \<Longrightarrow> polled s 0 \<noteq> 3 \<Longrightarrow> ReadMessage_body len cc s =
     Continue len cc (ScratchWatchdog (snd (read_DLC_Status s)))"
  by (auto simp: ReadMessage_body_def polled_def data_status_def completion_status_def Let_def)


lemma ReadMessage_completion_step:
  assumes "iterations < 30 * 1000" and "len \<noteq> 25" and "completion_status (polled s 0)"
  shows "ReadMessage_loop iterations len cc s =
     (let c = DLC_Receive_FIFO s (fifo_reads s);
          s2 = write_register DLC_Transmit_Command 0x02
                 (snd (read_DLC_Receive_FIFO (snd (read_DLC_Status s))))
      in if len = 0 then ReadMessage_loop (iterations + 1) 0 c (ScratchWatchdog s2)
         else if c AND 0x30 = 0x30
         then \<lparr>returned = 0, completionCode = c, readState = 2, after = s2\<rparr>
         else \<lparr>returned = len, completionCode = c, readState = 1, after = s2\<rparr>)"
  using assms
  by (subst ReadMessage_loop.simps) (simp add: ReadMessage_body_cases(4) Let_def)

lemma polled_next:
  "DLC_Status s1 = DLC_Status s \<Longrightarrow> status_reads s1 = status_reads s + 1 \<Longrightarrow>
   polled s1 k = polled s (Suc k)"
  by (simp add: polled_def)

lemma count_from_zero:
  "length (filter P [0..<Suc m]) =
     (if P 0 then 1 else 0) + length (filter (\<lambda>k. P (Suc k)) [0..<m])"
proof -
  have "[0..<Suc m] = 0 # map Suc [0..<m]"
    by (simp only: map_Suc_upt upt_conv_Cons [of 0 "Suc m"] zero_less_Suc)
  then show ?thesis
    by (simp only: filter.simps filter_map comp_def length_map) simp
qed

lemma timed_out_after_silence:
  assumes "timed_out m len s1 r" and "\<not> data_status (polled s 0)"
    and "DLC_Status s1 = DLC_Status s" and "status_reads s1 = status_reads s + 1"
    and "DLC_Receive_FIFO s1 = DLC_Receive_FIFO s" and "MessageBuffer s1 = MessageBuffer s"
    and "fifo_reads s1 = fifo_reads s \<or> len = 0 \<and> fifo_reads s1 = fifo_reads s + 1"
  shows "timed_out (Suc m) len s r"
proof -
  have p: "polled s1 k = polled s (Suc k)" for k
    using assms(3,4) by (rule polled_next)
  have n: "length (filter (\<lambda>k. data_status (polled s k)) [0..<Suc m]) =
           length (filter (\<lambda>k. data_status (polled s1 k)) [0..<m])"
    using assms(2) by (simp only: count_from_zero p) simp
  show ?thesis
    using assms(1,7) unfolding timed_out_def n
    by (simp only: assms(4,5,6)) auto
qed

lemma timed_out_after_data:
  assumes "timed_out m (len + 1) s1 r" and "data_status (polled s 0)" and "0 \<le> len"
    and "DLC_Status s1 = DLC_Status s" and "status_reads s1 = status_reads s + 1"
    and "DLC_Receive_FIFO s1 = DLC_Receive_FIFO s"
    and "MessageBuffer s1 = (MessageBuffer s)(nat len := DLC_Receive_FIFO s (fifo_reads s))"
    and "fifo_reads s1 = fifo_reads s + 1"
  shows "timed_out (Suc m) len s r"
proof -
  have p: "polled s1 k = polled s (Suc k)" for k
    using assms(4,5) by (rule polled_next)
  have n: "length (filter (\<lambda>k. data_status (polled s k)) [0..<Suc m]) =
           1 + length (filter (\<lambda>k. data_status (polled s1 k)) [0..<m])"
    using assms(2) by (simp only: count_from_zero p) simp
  from assms(1) have
    sr: "status_reads (after r) = status_reads s1 + m" and
    ret: "returned r = len + 1 + int (length (filter (\<lambda>k. data_status (polled s1 k)) [0..<m]))" and
    ff: "fifo_reads (after r) = fifo_reads s1 + nat (returned r - (len + 1))" and
    rf: "DLC_Receive_FIFO (after r) = DLC_Receive_FIFO s1" and
    old: "\<And>i. i < nat (len + 1) \<Longrightarrow> MessageBuffer (after r) i = MessageBuffer s1 i" and
    new: "\<And>i. nat (len + 1) \<le> i \<Longrightarrow> i < nat (returned r) \<Longrightarrow>
             MessageBuffer (after r) i =
               DLC_Receive_FIFO s1 (fifo_reads (after r) + i - nat (returned r))"
    using assms(3) by (simp_all add: timed_out_def)
  have le: "len + 1 \<le> returned r" using ret by simp
  have ff': "fifo_reads (after r) = fifo_reads s + nat (returned r - len)"
    using ff le assms(3,8) by simp
  have "MessageBuffer (after r) i =
          DLC_Receive_FIFO s (fifo_reads (after r) + i - nat (returned r))"
    if "nat len \<le> i" "i < nat (returned r)" for i
  proof (cases "i = nat len")
    case True
    then have "MessageBuffer (after r) i = DLC_Receive_FIFO s (fifo_reads s)"
      using old [of i] assms(3,7) by simp
    moreover have "fifo_reads (after r) + i - nat (returned r) = fifo_reads s"
      using ff' True le assms(3) by simp
    ultimately show ?thesis by simp
  next
    case False
    then show ?thesis using new [of i] that assms(3,6) by simp
  qed
  moreover have "MessageBuffer (after r) i = MessageBuffer s i" if "i < nat len" for i
    using old [of i] that assms(7) by simp
  ultimately show ?thesis
    unfolding timed_out_def using sr ret ff' rf assms(5,6) n by simp
qed

lemma ReadMessage_loop_timed_out:
  assumes "n = nat (30 * 1000 - iterations)" and "0 \<le> len"
    and "readState (ReadMessage_loop iterations len cc s) = 0x0A"
  shows "timed_out n len s (ReadMessage_loop iterations len cc s)"
  using assms
proof (induction n arbitrary: iterations len cc s)
  case 0
  then have "\<not> iterations < 30 * 1000" by simp
  then show ?case
    by (auto simp: ReadMessage_loop_step(3) timed_out_def)
next
  case (Suc n)
  then have lt: "iterations < 30 * 1000" by simp
  have n: "n = nat (30 * 1000 - (iterations + 1))" using Suc.prems(1) by simp
  note step = ReadMessage_loop_step(1) [OF lt] and stop = ReadMessage_loop_step(2) [OF lt]
  show ?case
  proof (cases "len = 25")
    case True
    then show ?thesis
      using Suc.prems(3) by (simp add: stop [OF ReadMessage_body_cases(1)])
  next
    case len: False
    consider (idle) "polled s 0 = 0" | (data) "data_status (polled s 0)"
      | (code) "completion_status (polled s 0)" | (over) "polled s 0 = 3"
      | (none) "polled s 0 \<noteq> 0" "\<not> data_status (polled s 0)"
          "\<not> completion_status (polled s 0)" "polled s 0 \<noteq> 3"
      by blast
    then show ?thesis
    proof cases
      case idle
      note eq = step [OF ReadMessage_body_cases(2) [OF len idle]]
      have "timed_out n len (ScratchWatchdog (WasteTime (snd (read_DLC_Status s))))
              (ReadMessage_loop iterations len cc s)"
        using Suc.prems(2,3) unfolding eq by (intro Suc.IH n) simp_all
      then show ?thesis
        by (rule timed_out_after_silence) (simp_all add: idle data_status_def WasteTime_def)
    next
      case data
      note eq = step [OF ReadMessage_body_cases(3) [OF len data]]
      have "timed_out n (len + 1) (ScratchWatchdog
             ((snd (read_DLC_Receive_FIFO (snd (read_DLC_Status s))))
                \<lparr>MessageBuffer := (MessageBuffer s)(nat len := DLC_Receive_FIFO s (fifo_reads s))\<rparr>))
              (ReadMessage_loop iterations len cc s)"
        using Suc.prems(2,3) unfolding eq by (intro Suc.IH n) simp_all
      then show ?thesis
        by (rule timed_out_after_data) (simp_all add: data Suc.prems(2))
    next
      case code
      show ?thesis
      proof (cases "len = 0")
        case True
        have b: "ReadMessage_body len cc s = Continue len (DLC_Receive_FIFO s (fifo_reads s))
            (ScratchWatchdog (write_register DLC_Transmit_Command 0x02
                 (snd (read_DLC_Receive_FIFO (snd (read_DLC_Status s))))))"
          unfolding ReadMessage_body_cases(4) [OF len code] Let_def using True by simp
        note eq = step [OF b]
        have "timed_out n len (ScratchWatchdog (write_register DLC_Transmit_Command 0x02
                 (snd (read_DLC_Receive_FIFO (snd (read_DLC_Status s))))))
              (ReadMessage_loop iterations len cc s)"
          using Suc.prems(2,3) unfolding eq by (intro Suc.IH n) simp_all
        then show ?thesis
          using code True
          by (elim timed_out_after_silence)
             (auto simp: data_status_def completion_status_def)
      next
        case False
        have "readState (ReadMessage_loop iterations len cc s) \<noteq> 0x0A"
          unfolding ReadMessage_completion_step [OF lt len code] Let_def using False by simp
        with Suc.prems(3) show ?thesis by simp
      qed
    next
      case over
      then show ?thesis
        using Suc.prems(3) by (simp add: stop [OF ReadMessage_body_cases(5) [OF len over]])
    next
      case none
      note eq = step [OF ReadMessage_body_cases(6) [OF len none]]
      have "timed_out n len (ScratchWatchdog (snd (read_DLC_Status s)))
              (ReadMessage_loop iterations len cc s)"
        using Suc.prems(2,3) unfolding eq by (intro Suc.IH n) simp_all
      then show ?thesis
        by (rule timed_out_after_silence) (simp_all add: none(2))
    qed
  qed
qed

lemma polled_ScratchWatchdog [simp]: "polled (ScratchWatchdog s) k = polled s k"
  by (simp add: polled_def)

lemma data_polls_zero [simp]: "data_polls s 0 = 0"
  by (simp add: data_polls_def)

lemma data_polls_next:
  assumes "DLC_Status s1 = DLC_Status s" and "status_reads s1 = status_reads s + 1"
  shows "data_polls s (Suc m) = (if data_status (polled s 0) then 1 else 0) + data_polls s1 m"
proof -
  have "polled s1 k = polled s (Suc k)" for k
    using assms by (rule polled_next)
  then show ?thesis
    unfolding data_polls_def by (simp only: count_from_zero)
qed

lemma data_not_completion: "data_status v \<Longrightarrow> \<not> completion_status v"
  by (auto simp: data_status_def completion_status_def)

lemma completed_after_silence:
  assumes c: "completed n len s1 r" and nd: "\<not> data_status (polled s 0)"
    and bare: "completion_status (polled s 0) \<longrightarrow> len = 0"
    and st: "DLC_Status s1 = DLC_Status s" "status_reads s1 = status_reads s + 1"
    and rf: "DLC_Receive_FIFO s1 = DLC_Receive_FIFO s" and mb: "MessageBuffer s1 = MessageBuffer s"
    and fr: "fifo_reads s1 = fifo_reads s \<or> len = 0 \<and> fifo_reads s1 = fifo_reads s + 1"
  shows "completed (Suc n) len s r"
proof -
  have p: "polled s1 k = polled s (Suc k)" for k
    using st by (rule polled_next)
  have d: "data_polls s (Suc m) = data_polls s1 m" for m
    using data_polls_next [OF st, of m] nd by simp
  have earlier: "len + int (data_polls s k) = 0"
    if "k < Suc n" "completion_status (polled s k)" for k
  proof (cases k)
    case 0
    with that bare show ?thesis by simp
  next
    case (Suc j)
    with that c show ?thesis
      by (simp add: completed_def d p [symmetric])
  qed
  show ?thesis
    using c fr earlier unfolding completed_def [of "Suc n"] d p [symmetric]
    by (auto simp: completed_def st rf mb)
qed

lemma completed_after_data:
  assumes c: "completed n (len + 1) s1 r" and da: "data_status (polled s 0)" and len: "0 \<le> len"
    and st: "DLC_Status s1 = DLC_Status s" "status_reads s1 = status_reads s + 1"
    and rf: "DLC_Receive_FIFO s1 = DLC_Receive_FIFO s"
    and mb: "MessageBuffer s1 = (MessageBuffer s)(nat len := DLC_Receive_FIFO s (fifo_reads s))"
    and fr: "fifo_reads s1 = fifo_reads s + 1"
  shows "completed (Suc n) len s r"
proof -
  have p: "polled s1 k = polled s (Suc k)" for k
    using st by (rule polled_next)
  have d: "data_polls s (Suc m) = 1 + data_polls s1 m" for m
    using data_polls_next [OF st, of m] da by simp
  from c len have
    sr: "status_reads (after r) = status_reads s1 + n + 1" and
    cs: "completion_status (polled s1 n)" and
    ea: "\<And>k. k < n \<Longrightarrow> completion_status (polled s1 k) \<Longrightarrow>
            len + 1 + int (data_polls s1 k) = 0" and
    cc: "completionCode r = DLC_Receive_FIFO s1 (fifo_reads (after r) - 1)" and
    rs: "if completionCode r AND 0x30 = 0x30
          then readState r = 2 \<and> returned r = 0
          else readState r = 1 \<and> returned r = len + 1 + int (data_polls s1 n)" and
    ff: "fifo_reads (after r) = fifo_reads s1 + data_polls s1 n + 1" and
    rr: "DLC_Receive_FIFO (after r) = DLC_Receive_FIFO s1" and
    old: "\<And>i. i < nat (len + 1) \<Longrightarrow> MessageBuffer (after r) i = MessageBuffer s1 i" and
    new: "\<And>i. nat (len + 1) \<le> i \<Longrightarrow> i < nat (len + 1) + data_polls s1 n \<Longrightarrow>
             MessageBuffer (after r) i =
               DLC_Receive_FIFO s1
                 (fifo_reads (after r) + i - (nat (len + 1) + data_polls s1 n + 1))"
    by (simp_all add: completed_def)
  have earlier: "len + int (data_polls s k) = 0"
    if "k < Suc n" "completion_status (polled s k)" for k
  proof (cases k)
    case 0
    with that da show ?thesis by (simp add: data_not_completion)
  next
    case (Suc j)
    with that ea [of j] len show ?thesis
      by (simp add: d p)
  qed
  have ff': "fifo_reads (after r) = fifo_reads s + data_polls s (Suc n) + 1"
    using ff fr by (simp add: d)
  have fill: "MessageBuffer (after r) i =
          DLC_Receive_FIFO s (fifo_reads (after r) + i - (nat len + data_polls s (Suc n) + 1))"
    if "nat len \<le> i" "i < nat len + data_polls s (Suc n)" for i
  proof (cases "i = nat len")
    case True
    then have "MessageBuffer (after r) i = DLC_Receive_FIFO s (fifo_reads s)"
      using old [of i] len mb by simp
    moreover have "fifo_reads (after r) + i - (nat len + data_polls s (Suc n) + 1) = fifo_reads s"
      using ff' True by simp
    ultimately show ?thesis by simp
  next
    case False
    then show ?thesis
      using new [of i] that len rf by (simp add: d nat_add_distrib)
  qed
  have keep: "MessageBuffer (after r) i = MessageBuffer s i" if "i < nat len" for i
    using old [of i] that mb by simp
  show ?thesis
    unfolding completed_def
    using sr cs cc rs ff' rr earlier fill keep len
    by (simp add: st rf d p [symmetric])
qed

lemma completed_at_once:
  assumes "iterations < 30 * 1000" and "len \<noteq> 25" and "completion_status (polled s 0)"
    and "1 \<le> len"
  shows "completed 0 len s (ReadMessage_loop iterations len cc s)"
  unfolding ReadMessage_completion_step [OF assms(1,2,3)] Let_def completed_def
  using assms(3,4) by auto

lemma ReadMessage_loop_completed:
  assumes "m = nat (30 * 1000 - iterations)" and "0 \<le> len"
    and "readState (ReadMessage_loop iterations len cc s) = 1
         \<or> readState (ReadMessage_loop iterations len cc s) = 2"
  shows "\<exists>n<m. completed n len s (ReadMessage_loop iterations len cc s)"
  using assms
proof (induction m arbitrary: iterations len cc s)
  case 0
  then have "\<not> iterations < 30 * 1000" by simp
  with "0.prems"(3) show ?case
    by (simp add: ReadMessage_loop_step(3))
next
  case (Suc m)
  then have lt: "iterations < 30 * 1000" by simp
  have m: "m = nat (30 * 1000 - (iterations + 1))" using Suc.prems(1) by simp
  note step = ReadMessage_loop_step(1) [OF lt] and stop = ReadMessage_loop_step(2) [OF lt]
  show ?case
  proof (cases "len = 25")
    case True
    then show ?thesis
      using Suc.prems(3) by (simp add: stop [OF ReadMessage_body_cases(1)])
  next
    case len: False
    consider (idle) "polled s 0 = 0" | (data) "data_status (polled s 0)"
      | (code) "completion_status (polled s 0)" | (over) "polled s 0 = 3"
      | (none) "polled s 0 \<noteq> 0" "\<not> data_status (polled s 0)"
          "\<not> completion_status (polled s 0)" "polled s 0 \<noteq> 3"
      by blast
    then show ?thesis
    proof cases
      case idle
      note eq = step [OF ReadMessage_body_cases(2) [OF len idle]]
      have "\<exists>n<m. completed n len (ScratchWatchdog (WasteTime (snd (read_DLC_Status s))))
              (ReadMessage_loop iterations len cc s)"
        using Suc.prems(2,3) unfolding eq by (intro Suc.IH m) simp_all
      then obtain n where n: "n < m"
        "completed n len (ScratchWatchdog (WasteTime (snd (read_DLC_Status s))))
              (ReadMessage_loop iterations len cc s)"
        by blast
      have "completed (Suc n) len s (ReadMessage_loop iterations len cc s)"
        using n(2)
        by (rule completed_after_silence)
           (simp_all add: idle data_status_def completion_status_def WasteTime_def)
      with n(1) show ?thesis by blast
    next
      case data
      note eq = step [OF ReadMessage_body_cases(3) [OF len data]]
      have "\<exists>n<m. completed n (len + 1) (ScratchWatchdog
             ((snd (read_DLC_Receive_FIFO (snd (read_DLC_Status s))))
                \<lparr>MessageBuffer := (MessageBuffer s)(nat len := DLC_Receive_FIFO s (fifo_reads s))\<rparr>))
              (ReadMessage_loop iterations len cc s)"
        using Suc.prems(2,3) unfolding eq by (intro Suc.IH m) simp_all
      then obtain n where n: "n < m"
        "completed n (len + 1) (ScratchWatchdog
             ((snd (read_DLC_Receive_FIFO (snd (read_DLC_Status s))))
                \<lparr>MessageBuffer := (MessageBuffer s)(nat len := DLC_Receive_FIFO s (fifo_reads s))\<rparr>))
              (ReadMessage_loop iterations len cc s)"
        by blast
      have "completed (Suc n) len s (ReadMessage_loop iterations len cc s)"
        using n(2) by (rule completed_after_data) (simp_all add: data Suc.prems(2))
      with n(1) show ?thesis by blast
    next
      case code
      show ?thesis
      proof (cases "len = 0")
        case True
        have eq: "ReadMessage_loop iterations len cc s =
            ReadMessage_loop (iterations + 1) len (DLC_Receive_FIFO s (fifo_reads s))
              (ScratchWatchdog (write_register DLC_Transmit_Command 0x02
                 (snd (read_DLC_Receive_FIFO (snd (read_DLC_Status s))))))"
          unfolding ReadMessage_completion_step [OF lt len code] Let_def using True by simp
        have "\<exists>n<m. completed n len (ScratchWatchdog (write_register DLC_Transmit_Command 0x02
                 (snd (read_DLC_Receive_FIFO (snd (read_DLC_Status s))))))
              (ReadMessage_loop iterations len cc s)"
          using Suc.prems(2,3) unfolding eq by (intro Suc.IH m) simp_all
        then obtain n where n: "n < m"
          "completed n len (ScratchWatchdog (write_register DLC_Transmit_Command 0x02
                 (snd (read_DLC_Receive_FIFO (snd (read_DLC_Status s))))))
              (ReadMessage_loop iterations len cc s)"
          by blast
        have "completed (Suc n) len s (ReadMessage_loop iterations len cc s)"
          using n(2) code True
          by (elim completed_after_silence) (auto simp: data_not_completion)
        with n(1) show ?thesis by blast
      next
        case False
        then have "completed 0 len s (ReadMessage_loop iterations len cc s)"
          using Suc.prems(2) by (intro completed_at_once lt len code) simp
        then show ?thesis by blast
      qed
    next
      case over
      then show ?thesis
        using Suc.prems(3) by (simp add: stop [OF ReadMessage_body_cases(5) [OF len over]])
    next
      case none
      note eq = step [OF ReadMessage_body_cases(6) [OF len none]]
      have "\<exists>n<m. completed n len (ScratchWatchdog (snd (read_DLC_Status s)))
              (ReadMessage_loop iterations len cc s)"
        using Suc.prems(2,3) unfolding eq by (intro Suc.IH m) simp_all
      then obtain n where n: "n < m"
        "completed n len (ScratchWatchdog (snd (read_DLC_Status s)))
              (ReadMessage_loop iterations len cc s)"
        by blast
      have "completed (Suc n) len s (ReadMessage_loop iterations len cc s)"
        using n(2) by (rule completed_after_silence) (simp_all add: none)
      with n(1) show ?thesis by blast
    qed
  qed
qed

lemma data_polls_ScratchWatchdog [simp]: "data_polls (ScratchWatchdog s) n = data_polls s n"
  by (simp add: data_polls_def polled_def)

lemma ReadMessage_completed:
  assumes "readState (ReadMessage cc s) = 1 \<or> readState (ReadMessage cc s) = 2"
  shows "\<exists>n<30000. completed n 0 (ScratchWatchdog s) (ReadMessage cc s)"
proof -
  have "(30000::nat) = nat (30 * 1000 - 0)" by simp
  then show ?thesis
    using assms ReadMessage_loop_completed [of 30000 0 0 cc "ScratchWatchdog s"]
    unfolding ReadMessage_def by simp
qed

text \<open>
  C2: when a poll finds a completion code, the loop reads it and acknowledges it; with no
  byte buffered it goes on to the next iteration, and with at least one byte buffered it
  returns, with state 2 and length 0 when bits 0x30 of the code are both set and with state 1
  and the buffered length otherwise. So a call of \<^verbatim>\<open>ReadMessage\<close> that returns state 1 or 2
  has returned at a poll that announced a completion code, after at least one poll that
  announced a data byte; every completion code polled before came when no data byte had been
  polled; the length returned with state 1 is the number of data bytes polled, and the
  buffer holds them from index 0 on: they are the bytes read from the receive register just
  before the code, in the order they were read.
\<close>

theorem ReadMessage_completion_code:
  "(iterations < 30 * 1000 \<and> len \<noteq> 25 \<and> completion_status (polled s 0) \<longrightarrow>
      ReadMessage_loop iterations len cc s =
       (let c = DLC_Receive_FIFO s (fifo_reads s);
            s2 = write_register DLC_Transmit_Command 0x02
                   (snd (read_DLC_Receive_FIFO (snd (read_DLC_Status s))))
        in if len = 0 then ReadMessage_loop (iterations + 1) 0 c (ScratchWatchdog s2)
           else if c AND 0x30 = 0x30
           then \<lparr>returned = 0, completionCode = c, readState = 2, after = s2\<rparr>
           else \<lparr>returned = len, completionCode = c, readState = 1, after = s2\<rparr>))
   \<and> (readState (ReadMessage cc s) = 1 \<or> readState (ReadMessage cc s) = 2 \<longrightarrow>
        (\<exists>n<30000.
            status_reads (after (ReadMessage cc s)) = status_reads s + n + 1
          \<and> completion_status (polled s n)
          \<and> 1 \<le> data_polls s n
          \<and> (\<forall>k. k < n \<and> completion_status (polled s k) \<longrightarrow> data_polls s k = 0)
          \<and> completionCode (ReadMessage cc s) =
              DLC_Receive_FIFO s (fifo_reads (after (ReadMessage cc s)) - 1)
          \<and> (if completionCode (ReadMessage cc s) AND 0x30 = 0x30
              then readState (ReadMessage cc s) = 2 \<and> returned (ReadMessage cc s) = 0
              else readState (ReadMessage cc s) = 1
                   \<and> returned (ReadMessage cc s) = int (data_polls s n))
          \<and> (\<forall>i. i < data_polls s n \<longrightarrow>
                MessageBuffer (after (ReadMessage cc s)) i =
                  DLC_Receive_FIFO s
                    (fifo_reads (after (ReadMessage cc s)) + i - (data_polls s n + 1)))))"
proof (intro conjI impI)
  assume "iterations < 30 * 1000 \<and> len \<noteq> 25 \<and> completion_status (polled s 0)"
  then show "ReadMessage_loop iterations len cc s =
       (let c = DLC_Receive_FIFO s (fifo_reads s);
            s2 = write_register DLC_Transmit_Command 0x02
                   (snd (read_DLC_Receive_FIFO (snd (read_DLC_Status s))))
        in if len = 0 then ReadMessage_loop (iterations + 1) 0 c (ScratchWatchdog s2)
           else if c AND 0x30 = 0x30
           then \<lparr>returned = 0, completionCode = c, readState = 2, after = s2\<rparr>
           else \<lparr>returned = len, completionCode = c, readState = 1, after = s2\<rparr>)"
    using ReadMessage_completion_step [of iterations len s cc] by blast
next
  assume "readState (ReadMessage cc s) = 1 \<or> readState (ReadMessage cc s) = 2"
  then obtain n where n: "n < 30000" "completed n 0 (ScratchWatchdog s) (ReadMessage cc s)"
    using ReadMessage_completed by blast
  show "\<exists>n<30000.
            status_reads (after (ReadMessage cc s)) = status_reads s + n + 1
          \<and> completion_status (polled s n)
          \<and> 1 \<le> data_polls s n
          \<and> (\<forall>k. k < n \<and> completion_status (polled s k) \<longrightarrow> data_polls s k = 0)
          \<and> completionCode (ReadMessage cc s) =
              DLC_Receive_FIFO s (fifo_reads (after (ReadMessage cc s)) - 1)
          \<and> (if completionCode (ReadMessage cc s) AND 0x30 = 0x30
              then readState (ReadMessage cc s) = 2 \<and> returned (ReadMessage cc s) = 0
              else readState (ReadMessage cc s) = 1
                   \<and> returned (ReadMessage cc s) = int (data_polls s n))
          \<and> (\<forall>i. i < data_polls s n \<longrightarrow>
                MessageBuffer (after (ReadMessage cc s)) i =
                  DLC_Receive_FIFO s
                    (fifo_reads (after (ReadMessage cc s)) + i - (data_polls s n + 1)))"
    using n unfolding completed_def by (intro exI [of _ n]) simp
qed

text \<open>
  A completion code 0x30 with nothing buffered, and a frame of one byte that ends with the
  code 0x00, or with the code 0x30.
\<close>

theorem ReadMessage_completion_code_witness:
  "ReadMessage_loop 0 0 0 bare_code =
     ReadMessage_loop 1 0 0x30 (ScratchWatchdog (write_register DLC_Transmit_Command 0x02
        (snd (read_DLC_Receive_FIFO (snd (read_DLC_Status bare_code))))))
   \<and> readState (ReadMessage 0 (short_frame 0x00)) = 1
   \<and> returned (ReadMessage 0 (short_frame 0x00)) = 1
   \<and> MessageBuffer (after (ReadMessage 0 (short_frame 0x00))) 0 = 0x6C
   \<and> readState (ReadMessage 0 (short_frame 0x30)) = 2
   \<and> returned (ReadMessage 0 (short_frame 0x30)) = 0"
proof -
  have c: "(0::int) < 30 * 1000 \<and> (0::int) \<noteq> 25 \<and> completion_status (polled bare_code 0)"
    by (simp add: completion_status_def polled_def bare_code_def idle_bus_def)
  have f: "DLC_Receive_FIFO bare_code (fifo_reads bare_code) = 0x30"
    by (simp add: bare_code_def idle_bus_def)
  have one: "readState (ReadMessage 0 (short_frame 0x00)) = 1"
      "status_reads (after (ReadMessage 0 (short_frame 0x00))) = 2"
      "fifo_reads (after (ReadMessage 0 (short_frame 0x00))) = 2"
    by (simp_all add: ReadMessage_def ReadMessage_loop.simps [of 0] ReadMessage_loop.simps [of 1]
        ReadMessage_body_def short_frame_def idle_bus_def Let_def)
  have two: "readState (ReadMessage 0 (short_frame 0x30)) = 2"
    by (simp add: ReadMessage_def ReadMessage_loop.simps [of 0] ReadMessage_loop.simps [of 1]
        ReadMessage_body_def short_frame_def idle_bus_def Let_def)
  have z: "status_reads (short_frame 0x00) = 0"
    by (simp add: short_frame_def idle_bus_def)
  have dp: "data_polls (short_frame 0x00) (Suc 0) = Suc 0"
    by (simp add: data_polls_def data_status_def polled_def short_frame_def idle_bus_def)
  have first: "DLC_Receive_FIFO (short_frame 0x00) 0 = 0x6C"
    by (simp add: short_frame_def)
  have "ReadMessage_loop 0 0 0 bare_code =
     ReadMessage_loop 1 0 0x30 (ScratchWatchdog (write_register DLC_Transmit_Command 0x02
        (snd (read_DLC_Receive_FIFO (snd (read_DLC_Status bare_code))))))"
    using ReadMessage_completion_code
      [where iterations = 0 and len = 0 and s = bare_code and cc = 0] c
    by (simp add: Let_def f)
  moreover have "returned (ReadMessage 0 (short_frame 0x00)) = 1
      \<and> MessageBuffer (after (ReadMessage 0 (short_frame 0x00))) 0 = 0x6C"
  proof -
    obtain n where n: "status_reads (after (ReadMessage 0 (short_frame 0x00))) =
          status_reads (short_frame 0x00) + n + 1"
      and r: "if completionCode (ReadMessage 0 (short_frame 0x00)) AND 0x30 = 0x30
              then readState (ReadMessage 0 (short_frame 0x00)) = 2
                   \<and> returned (ReadMessage 0 (short_frame 0x00)) = 0
              else readState (ReadMessage 0 (short_frame 0x00)) = 1
                   \<and> returned (ReadMessage 0 (short_frame 0x00)) =
                       int (data_polls (short_frame 0x00) n)"
      and b: "\<And>i. i < data_polls (short_frame 0x00) n \<Longrightarrow>
                MessageBuffer (after (ReadMessage 0 (short_frame 0x00))) i =
                  DLC_Receive_FIFO (short_frame 0x00)
                    (fifo_reads (after (ReadMessage 0 (short_frame 0x00))) + i
                     - (data_polls (short_frame 0x00) n + 1))"
      using ReadMessage_completion_code [where s = "short_frame 0x00" and cc = 0] one(1)
      by blast
    have "n = 1" using n by (simp add: one(2) z)
    then show ?thesis
      using r b [of 0] one(1) by (simp add: dp one(3) first split: if_splits)
  qed
  moreover have "returned (ReadMessage 0 (short_frame 0x30)) = 0"
  proof -
    obtain n where "if completionCode (ReadMessage 0 (short_frame 0x30)) AND 0x30 = 0x30
              then readState (ReadMessage 0 (short_frame 0x30)) = 2
                   \<and> returned (ReadMessage 0 (short_frame 0x30)) = 0
              else readState (ReadMessage 0 (short_frame 0x30)) = 1
                   \<and> returned (ReadMessage 0 (short_frame 0x30)) =
                       int (data_polls (short_frame 0x30) n)"
      using ReadMessage_completion_code [where s = "short_frame 0x30" and cc = 0] two
      by blast
    then show ?thesis using two by (simp split: if_splits)
  qed
  ultimately show ?thesis using one(1) two by blast
qed

lemma ReadMessage_timed_out:
  assumes "readState (ReadMessage cc s) = 0x0A"
  shows "timed_out 30000 0 (ScratchWatchdog s) (ReadMessage cc s)"
proof -
  have "(30000::nat) = nat (30 * 1000 - 0)" by simp
  then show ?thesis
    using assms ReadMessage_loop_timed_out [of 30000 0 0 cc "ScratchWatchdog s"]
    unfolding ReadMessage_def by simp
qed

text \<open>
  C8: when the 30000 iterations are used up the loop returns state 0x0A with the length it
  has and leaves the machine as it is. A call of \<^verbatim>\<open>ReadMessage\<close> that returns state 0x0A
  has polled the status 30000 times; the length it returns is the number of those polls that
  announced a data byte, and the buffer holds these bytes from index 0 on: they are the last
  bytes read from the receive register, in the order they were read.
\<close>

theorem ReadMessage_timeout_keeps_partial_data:
  "ReadMessage_loop (30 * 1000) len cc t =
     \<lparr>returned = len, completionCode = cc, readState = 0x0A, after = t\<rparr>
   \<and> (readState (ReadMessage cc s) = 0x0A \<longrightarrow>
        status_reads (after (ReadMessage cc s)) = status_reads s + 30000
      \<and> returned (ReadMessage cc s) =
          int (length (filter (\<lambda>k. data_status (polled s k)) [0..<30000]))
      \<and> (\<forall>i < nat (returned (ReadMessage cc s)).
            MessageBuffer (after (ReadMessage cc s)) i =
              DLC_Receive_FIFO s
                (fifo_reads (after (ReadMessage cc s)) + i - nat (returned (ReadMessage cc s)))))"
proof (intro conjI impI)
  show "ReadMessage_loop (30 * 1000) len cc t =
     \<lparr>returned = len, completionCode = cc, readState = 0x0A, after = t\<rparr>"
    by (simp add: ReadMessage_loop_step(3))
next
  assume "readState (ReadMessage cc s) = 0x0A"
  then have t: "timed_out 30000 0 (ScratchWatchdog s) (ReadMessage cc s)"
    by (rule ReadMessage_timed_out)
  show "status_reads (after (ReadMessage cc s)) = status_reads s + 30000"
    using t unfolding timed_out_def by (simp del: upt_rec_numeral)
  show "returned (ReadMessage cc s) =
          int (length (filter (\<lambda>k. data_status (polled s k)) [0..<30000]))"
    using t unfolding timed_out_def by (simp del: upt_rec_numeral)
  show "\<forall>i < nat (returned (ReadMessage cc s)).
            MessageBuffer (after (ReadMessage cc s)) i =
              DLC_Receive_FIFO s
                (fifo_reads (after (ReadMessage cc s)) + i - nat (returned (ReadMessage cc s)))"
    using t unfolding timed_out_def by (simp del: upt_rec_numeral)
qed

lemma ReadMessage_loop_silence:
  assumes "n = nat (30 * 1000 - iterations)" and "len \<noteq> 25" and "\<And>k. polled s k = 0"
  shows "readState (ReadMessage_loop iterations len cc s) = 0x0A
         \<and> returned (ReadMessage_loop iterations len cc s) = len"
  using assms
proof (induction n arbitrary: iterations s)
  case 0
  then have "\<not> iterations < 30 * 1000" by simp
  then show ?case by (simp add: ReadMessage_loop_step(3))
next
  case (Suc n)
  then have lt: "iterations < 30 * 1000" by simp
  have n: "n = nat (30 * 1000 - (iterations + 1))" using Suc.prems(1) by simp
  have "polled (ScratchWatchdog (WasteTime (snd (read_DLC_Status s)))) k = 0" for k
    using Suc.prems(3) [of "Suc k"] by (simp add: polled_def WasteTime_def)
  then show ?case
    unfolding ReadMessage_loop_step(1) [OF lt ReadMessage_body_cases(2) [OF Suc.prems(2,3)]]
    using Suc.prems(2) by (intro Suc.IH n)
qed

text \<open>One data byte, then silence until the iterations run out.\<close>

theorem ReadMessage_timeout_keeps_partial_data_witness:
  "readState (ReadMessage 0 lone_byte) = 0x0A
   \<and> returned (ReadMessage 0 lone_byte) = 1
   \<and> status_reads (after (ReadMessage 0 lone_byte)) = 30000
   \<and> MessageBuffer (after (ReadMessage 0 lone_byte)) 0 = 0x6C"
proof -
  define s1 where "s1 = ScratchWatchdog
       ((snd (read_DLC_Receive_FIFO (snd (read_DLC_Status (ScratchWatchdog lone_byte)))))
          \<lparr>MessageBuffer := (MessageBuffer (ScratchWatchdog lone_byte))
             (nat 0 := DLC_Receive_FIFO (ScratchWatchdog lone_byte)
                         (fifo_reads (ScratchWatchdog lone_byte)))\<rparr>)"
  have d: "data_status (polled (ScratchWatchdog lone_byte) 0)"
    by (simp add: data_status_def polled_def lone_byte_def idle_bus_def)
  have first: "ReadMessage 0 lone_byte = ReadMessage_loop (0 + 1) (0 + 1) 0 s1"
    unfolding ReadMessage_def s1_def
    by (rule ReadMessage_loop_step(1) [OF _ ReadMessage_body_cases(3) [OF _ d]]) simp_all
  have quiet: "polled s1 k = 0" for k
    by (simp add: s1_def polled_def lone_byte_def idle_bus_def)
  have a: "readState (ReadMessage 0 lone_byte) = 0x0A \<and> returned (ReadMessage 0 lone_byte) = 1"
    unfolding first using ReadMessage_loop_silence [OF refl _ quiet, of "0 + 1" "0 + 1" 0]
    by simp
  have f: "DLC_Receive_FIFO lone_byte k = 0x6C" for k
    by (simp add: lone_byte_def idle_bus_def)
  have z: "status_reads lone_byte = 0"
    by (simp add: lone_byte_def idle_bus_def)
  show ?thesis
    using ReadMessage_timeout_keeps_partial_data [where s = lone_byte and cc = 0] a
    by (simp add: f z del: upt_rec_numeral)
qed

end
